theory Spec2Isabelle
  imports Complex_Main "HOL-Library.Log_Nat"
begin

section \<open>Values and errors\<close>

text \<open>
  The module \<open>modify_llama_baselines.py\<close> computes with floating-point tensors. A number
  is a rational here; a mask or logit entry is either a finite number or \<open>float('-inf')\<close>.
  The products that decide a budget are rounded as the machine rounds them (see \<open>fl\<close>
  below). Python exceptions are values of the type \<open>error\<close>; a \<open>ValueError\<close> and an
  \<open>AssertionError\<close> carry the message the source gives them.
\<close>

datatype error =
    ValueError string
  | AssertionError string
  | IndexError
  | TypeError
  | AttributeError
  | RuntimeError
  | ZeroDivisionError
  | OverflowError

datatype score = Fin rat | NegInf

fun sadd :: "score \<Rightarrow> score \<Rightarrow> score" where
  "sadd (Fin a) (Fin b) = Fin (a + b)"
| "sadd _ _ = NegInf"

definition madd :: "score list list \<Rightarrow> score list list \<Rightarrow> score list list" where
  "madd a b = map2 (map2 sadd) a b"

text \<open>Python's \<open>int(x)\<close> on a float truncates towards zero.\<close>

definition py_int :: "rat \<Rightarrow> int" where
  "py_int x = (if 0 \<le> x then \<lfloor>x\<rfloor> else \<lceil>x\<rceil>)"

text \<open>Python's \<open>round(x)\<close> rounds to the nearest integer, a tie to the even neighbour.\<close>

definition py_round :: "rat \<Rightarrow> int" where
  "py_round x =
     (let f = \<lfloor>x\<rfloor>; d = x - of_int f
      in if d < 1 / 2 then f else if 1 / 2 < d then f + 1 else if even f then f else f + 1)"

section \<open>Double precision\<close>

text \<open>
  A Python float is an IEEE 754 binary64 number: 53 significant bits, results rounded to the
  nearest such number, a tie to the one with the even last bit. \<open>expo x\<close> is the exponent
  of the power of two at or below a positive \<open>x\<close>, \<open>fl x\<close> the binary64 number nearest
  to \<open>x\<close>. The range of the exponent is not bounded here: numbers of magnitude below
  \<open>2^-1022\<close> or from \<open>2^1024\<close> on, which no sequence length times a fraction reaches,
  are rounded like the others.
\<close>

definition expo :: "rat \<Rightarrow> int" where
  "expo x = (if 1 \<le> x then bitlen \<lfloor>x\<rfloor> - 1 else - bitlen (\<lceil>1 / x\<rceil> - 1))"

definition fl_pos :: "rat \<Rightarrow> rat" where
  "fl_pos x = (let u = 2 powi (expo x - 52) in of_int (py_round (x / u)) * u)"

definition fl :: "rat \<Rightarrow> rat" where
  "fl x = (if x = 0 then 0 else if 0 < x then fl_pos x else - fl_pos (- x))"

text \<open>
  \<open>a * b\<close> on floats; an \<open>int\<close> operand below \<open>2^53\<close> is converted without error
  first.
\<close>

definition fmul :: "rat \<Rightarrow> rat \<Rightarrow> rat" where
  "fmul a b = fl (a * b)"

text \<open>
  What \<open>float(s)\<close> can return: a finite number, an infinity or a NaN. From \<open>float_max\<close>
  on a decimal literal is read as an infinity.
\<close>

datatype pyfloat = Num rat | PlusInf | MinusInf | NaN

definition float_max :: rat where
  "float_max = 2 ^ 1024 - 2 ^ 970"

section \<open>Strings\<close>

fun starts_with :: "string \<Rightarrow> string \<Rightarrow> bool" where
  "starts_with [] s = True"
| "starts_with (p # ps) [] = False"
| "starts_with (p # ps) (c # cs) = (p = c \<and> starts_with ps cs)"

text \<open>\<open>sub in s\<close> on Python strings.\<close>

fun py_in :: "string \<Rightarrow> string \<Rightarrow> bool" where
  "py_in sub [] = (sub = [])"
| "py_in sub (c # cs) = (starts_with sub (c # cs) \<or> py_in sub cs)"

text \<open>\<open>s.split(d)\<close> for a one-character separator.\<close>

fun split_char :: "char \<Rightarrow> string \<Rightarrow> string list" where
  "split_char d [] = [[]]"
| "split_char d (c # cs) =
     (if c = d then [] # split_char d cs
      else (case split_char d cs of [] \<Rightarrow> [[c]] | p # ps \<Rightarrow> (c # p) # ps))"

text \<open>\<open>s.split(sep)[0]\<close>: the part of \<open>s\<close> before the first occurrence of \<open>sep\<close>.\<close>

fun split_first :: "string \<Rightarrow> string \<Rightarrow> string" where
  "split_first sep [] = []"
| "split_first sep (c # cs) = (if starts_with sep (c # cs) then [] else c # split_first sep cs)"

text \<open>The value of a decimal digit.\<close>

definition digit_of :: "char \<Rightarrow> nat option" where
  "digit_of c = map_of (zip ''0123456789'' [0, 1, 2, 3, 4, 5, 6, 7, 8, 9]) c"

text \<open>
  A run of digits in which single underscores may stand between two digits: its value and
  the number of its digits. The empty run has no digit.
\<close>

fun digit_group :: "bool \<Rightarrow> nat \<Rightarrow> nat \<Rightarrow> string \<Rightarrow> (nat \<times> nat) option" where
  "digit_group pd acc n [] = (if pd \<or> n = 0 then Some (acc, n) else None)"
| "digit_group pd acc n (c # cs) =
     (if c = CHR ''_'' then (if pd then digit_group False acc n cs else None)
      else (case digit_of c of
              None \<Rightarrow> None
            | Some d \<Rightarrow> digit_group True (10 * acc + d) (n + 1) cs))"

text \<open>The exponent of a literal: nothing, or \<open>e\<close>, a sign if any, and at least one digit.\<close>

definition exponent_part :: "string \<Rightarrow> int option" where
  "exponent_part ex =
     (case ex of
        [] \<Rightarrow> Some 0
      | _ # r \<Rightarrow>
          (let neg = (case r of [] \<Rightarrow> False | c # _ \<Rightarrow> c = CHR ''-'');
               ds = (case r of [] \<Rightarrow> []
                     | c # t \<Rightarrow> if c = CHR ''-'' \<or> c = CHR ''+'' then t else r)
           in case digit_group False 0 0 ds of
                None \<Rightarrow> None
              | Some (v, n) \<Rightarrow>
                  if n = 0 then None else Some (if neg then - int v else int v)))"

definition is_space :: "char \<Rightarrow> bool" where
  "is_space c = (c \<in> set [CHR 0x09, CHR 0x0A, CHR 0x0B, CHR 0x0C, CHR 0x0D,
                           CHR 0x1C, CHR 0x1D, CHR 0x1E, CHR 0x1F, CHR 0x20])"

definition strip :: "string \<Rightarrow> string" where
  "strip s = rev (dropWhile is_space (rev (dropWhile is_space s)))"

definition lower :: "char \<Rightarrow> char" where
  "lower c =
     (case map_of (zip ''ABCDEFGHIJKLMNOPQRSTUVWXYZ'' ''abcdefghijklmnopqrstuvwxyz'') c of
        None \<Rightarrow> c
      | Some l \<Rightarrow> l)"

text \<open>
  \<open>float(s)\<close> on an ASCII string: blanks around the literal are dropped; after a sign, if
  any, the literal is \<open>inf\<close>, \<open>infinity\<close> or \<open>nan\<close> in any case of the letters, or a
  decimal number with digits before or after an optional point and an optional exponent.
  The value of a decimal literal is kept as it is written, not rounded to binary64.
\<close>

definition py_float :: "string \<Rightarrow> error + pyfloat" where
  "py_float s0 =
     (let s = strip s0;
          neg = (case s of [] \<Rightarrow> False | c # _ \<Rightarrow> c = CHR ''-'');
          body = (case s of [] \<Rightarrow> []
                  | c # r \<Rightarrow> if c = CHR ''-'' \<or> c = CHR ''+'' then r else s);
          low = map lower body
      in if low = ''inf'' \<or> low = ''infinity'' then Inr (if neg then MinusInf else PlusInf)
         else if low = ''nan'' then Inr NaN
         else
           (let mant = takeWhile (\<lambda>c. c \<noteq> CHR ''e'') low;
                ex = dropWhile (\<lambda>c. c \<noteq> CHR ''e'') low;
                ip = takeWhile (\<lambda>c. c \<noteq> CHR ''.'') mant;
                fp = (case dropWhile (\<lambda>c. c \<noteq> CHR ''.'') mant of [] \<Rightarrow> [] | _ # f \<Rightarrow> f)
            in case (digit_group False 0 0 ip, digit_group False 0 0 fp, exponent_part ex) of
                 (Some (a, na), Some (b, nb), Some e) \<Rightarrow>
                   if na + nb = 0 then Inl (ValueError ''could not convert string to float'')
                   else
                     (let v = (of_nat a + of_nat b / 10 ^ nb) * 10 powi e
                      in if float_max \<le> v then Inr (if neg then MinusInf else PlusInf)
                         else Inr (Num (if neg then - v else v)))
               | _ \<Rightarrow> Inl (ValueError ''could not convert string to float'')))"

section \<open>The token-sparsity schedule\<close>

text \<open>\<open>float(name.split("_")[1].split("pc")[0])\<close>\<close>

definition pc_field :: "string \<Rightarrow> error + pyfloat" where
  "pc_field name =
     (case split_char CHR ''_'' name of
        _ # p # _ \<Rightarrow> py_float (split_first ''pc'' p)
      | _ \<Rightarrow> Inl IndexError)"

text \<open>\<open>1 - x / 100.\<close>\<close>

fun one_minus_pc :: "pyfloat \<Rightarrow> pyfloat" where
  "one_minus_pc (Num x) = Num (1 - x / 100)"
| "one_minus_pc PlusInf = MinusInf"
| "one_minus_pc MinusInf = PlusInf"
| "one_minus_pc NaN = NaN"

text \<open>
  \<open>b ** n\<close> for a float \<open>b\<close> and an \<open>int\<close> \<open>n\<close> \<ge> 0: the power 0 is 1.0 whatever the
  base; a finite result out of the range of the floats raises.
\<close>

fun py_pow :: "pyfloat \<Rightarrow> nat \<Rightarrow> error + pyfloat" where
  "py_pow b 0 = Inr (Num 1)"
| "py_pow (Num x) (Suc n) =
     (if float_max \<le> \<bar>x ^ Suc n\<bar> then Inl OverflowError else Inr (Num (x ^ Suc n)))"
| "py_pow PlusInf (Suc n) = Inr PlusInf"
| "py_pow MinusInf (Suc n) = Inr (if even n then MinusInf else PlusInf)"
| "py_pow NaN (Suc n) = Inr NaN"

text \<open>
  \<open>set_token_sparsity\<close> assigns \<open>self.sparse_aggression\<close>, the fraction of tokens the layer
  keeps; the result here is the assigned value. Its arithmetic is that of the rationals:
  the float that the machine assigns is this value up to the rounding of the division, the
  subtraction and the power.
\<close>

definition set_token_sparsity :: "string option \<Rightarrow> nat \<Rightarrow> error + pyfloat" where
  "set_token_sparsity token_sparse_method layer_idx =
     (case token_sparse_method of
        None \<Rightarrow> Inl (AssertionError ''Set token sparse method first!'')
      | Some m \<Rightarrow>
          if m = ''LazyLLM'' then
            (if layer_idx \<le> 9 then Inr (Num 1)
             else if layer_idx \<le> 19 then Inr (Num (7 / 10))
             else if layer_idx \<le> 28 then Inr (Num (4 / 10))
             else Inr (Num (1 / 10)))
          else if py_in ''fixed'' m then
            (if layer_idx = 0 then Inr (Num 1)
             else (case pc_field m of Inl e \<Rightarrow> Inl e | Inr x \<Rightarrow> Inr (one_minus_pc x)))
          else if py_in ''progressive'' m then
            (case pc_field m of Inl e \<Rightarrow> Inl e
             | Inr x \<Rightarrow> py_pow (one_minus_pc x) layer_idx)
          else Inl (ValueError (''Unknown token sparsity method '' @ m)))"

text \<open>
  The schedule names of the specification: \<open>LazyLLM\<close>, \<open>fixed_Xpc\<close> and
  \<open>progressive_Xpc\<close> with a number \<open>X\<close>.
\<close>

definition spec_Xpc :: "string \<Rightarrow> string \<Rightarrow> bool" where
  "spec_Xpc pre m =
     (starts_with pre m
      \<and> (let r = drop (length pre) m; x = take (length r - 2) r
         in drop (length r - 2) r = ''pc'' \<and> x \<noteq> []
            \<and> list_all (\<lambda>c. digit_of c \<noteq> None \<or> c = CHR ''.'') x))"

definition spec_known_schedule :: "string \<Rightarrow> bool" where
  "spec_known_schedule m =
     (m = ''LazyLLM'' \<or> spec_Xpc ''fixed_'' m \<or> spec_Xpc ''progressive_'' m)"

text \<open>The policy names of the specification (the table of its section 4.3).\<close>

definition spec_known_policy :: "string \<Rightarrow> bool" where
  "spec_known_policy m =
     (m \<in> set [''dense'', ''oracle'', ''random'', ''init_oracle'', ''lookahead_oracle'',
               ''streamingLLM'', ''oracle_grouped'', ''quest'', ''snapkv'', ''h2o_true''])"

text \<open>The fraction of tokens dropped when the fraction \<open>r\<close> is kept.\<close>

definition drop_fraction :: "rat \<Rightarrow> rat" where
  "drop_fraction r = 1 - r"

section \<open>The causal mask built by forward\<close>

definition ones :: "nat \<Rightarrow> nat \<Rightarrow> bool list list" where
  "ones q k = replicate q (replicate k True)"

text \<open>\<open>m.triu(diagonal=d)\<close> keeps the entries with column - row \<ge> d and clears the rest.\<close>

definition triu :: "int \<Rightarrow> bool list list \<Rightarrow> bool list list" where
  "triu d m =
     map (\<lambda>(i, row). map (\<lambda>(j, v). v \<and> d \<le> int j - int i) (enumerate 0 row)) (enumerate 0 m)"

definition zeros_like :: "bool list list \<Rightarrow> score list list" where
  "zeros_like m = map (map (\<lambda>_. Fin 0)) m"

definition masked_fill :: "score list list \<Rightarrow> bool list list \<Rightarrow> score \<Rightarrow> score list list" where
  "masked_fill a m v = map2 (map2 (\<lambda>x b. if b then v else x)) a m"

text \<open>One (batch, head) slice of the mask of lines 252-255.\<close>

definition causal_rows :: "nat \<Rightarrow> nat \<Rightarrow> score list list" where
  "causal_rows q_len kv_seq_len =
     (let causal_mask = triu 1 (ones q_len kv_seq_len)
      in masked_fill (zeros_like causal_mask) causal_mask NegInf)"

text \<open>The whole mask, of shape \<open>(bsz, 1, q_len, kv_seq_len)\<close>.\<close>

definition build_causal_mask :: "nat \<Rightarrow> nat \<Rightarrow> nat \<Rightarrow> score list list list list" where
  "build_causal_mask bsz q_len kv_seq_len = replicate bsz [causal_rows q_len kv_seq_len]"

text \<open>
  The mask as the specification words it: the \<open>Q\<close> query rows stand for the last \<open>Q\<close> of the
  \<open>K\<close> key positions, so row \<open>i\<close> is the absolute position \<open>i + (K - Q)\<close> and only keys
  after that position are suppressed.
\<close>

definition spec_causal_entry :: "nat \<Rightarrow> nat \<Rightarrow> nat \<Rightarrow> nat \<Rightarrow> score" where
  "spec_causal_entry Q K i j = (if i + (K - Q) < j then NegInf else Fin 0)"

section \<open>Budgets of the incremental eviction\<close>

text \<open>
  \<open>sa\<close> is \<open>self.sparse_aggression\<close> (the kept fraction, a float), \<open>msi\<close> is
  \<open>min_sparse_index\<close>. The product of an \<open>int\<close> and the float is a float product.
  Line 458 (SnapKV loop): \<open>max(int((i + 1) * self.sparse_aggression), min_sparse_index)\<close>.
\<close>

definition step_budget :: "rat \<Rightarrow> nat \<Rightarrow> nat \<Rightarrow> nat" where
  "step_budget sa msi i = nat (max (py_int (fmul (of_nat (i + 1)) sa)) (int msi))"

text \<open>
  Lines 606 (H2O loop) and 555 (H2O decode step, with \<open>i = new_token_id\<close>):
  \<open>max(min_sparse_index, int((i + 1) * self.sparse_aggression))\<close>.
\<close>

definition kv_cache_budget :: "rat \<Rightarrow> nat \<Rightarrow> nat \<Rightarrow> nat" where
  "kv_cache_budget sa msi i = nat (max (int msi) (py_int (fmul (of_nat (i + 1)) sa)))"

text \<open>
  The budget as the specification words it, from the dropped fraction \<open>aggression\<close>:
  \<open>max(round((i+1) \<times> (1 - aggression)), min_sparse_index)\<close>.
\<close>

definition spec_step_budget :: "rat \<Rightarrow> nat \<Rightarrow> nat \<Rightarrow> nat" where
  "spec_step_budget aggression msi i =
     nat (max (py_round (of_nat (i + 1) * (1 - aggression))) (int msi))"

section \<open>The incremental eviction state of SnapKV and H2O\<close>

text \<open>
  The loops of lines 457-514 (SnapKV) and 604-631 (H2O) act on tensors whose first axis
  ranges over the \<open>bsz * num_heads\<close> rows. No operation mixes two rows, and the branch
  taken (\<open>can_add\<close> or not) depends on the counts only, which are the same in every row;
  the model follows one row: \<open>active_tokens\<close> is the row's slot array and
  \<open>active_counts\<close> the row's count.
\<close>

record evict_state =
  active_tokens :: "nat list"
  active_counts :: nat

text \<open>
  Tensor indexing with one integer index: a negative index counts from the end, an index
  out of range raises.
\<close>

definition wrap_index :: "nat \<Rightarrow> int \<Rightarrow> error + nat" where
  "wrap_index n i =
     (if 0 \<le> i \<and> i < int n then Inr (nat i)
      else if - int n \<le> i \<and> i < 0 then Inr (nat (int n + i))
      else Inl IndexError)"

text \<open>\<open>row.gather(1, idx)\<close>: an index outside the row raises.\<close>

definition gather :: "rat list \<Rightarrow> nat list \<Rightarrow> error + rat list" where
  "gather row idx =
     (if list_all (\<lambda>t. t < length row) idx then Inr (map (nth row) idx) else Inl RuntimeError)"

primrec first_index :: "rat \<Rightarrow> rat list \<Rightarrow> nat" where
  "first_index v [] = 0"
| "first_index v (x # xs) = (if x = v then 0 else Suc (first_index v xs))"

text \<open>
  \<open>torch.min(t, dim=1)\<close> on one row: the least value and the index of its first
  occurrence; an empty row raises.
\<close>

definition torch_min :: "rat list \<Rightarrow> error + (rat \<times> nat)" where
  "torch_min xs =
     (case xs of
        [] \<Rightarrow> Inl IndexError
      | x # r \<Rightarrow> (let m = fold min r x in Inr (m, first_index m xs)))"

text \<open>
  The branch under \<open>cannot_add\<close> (lines 490-503, 565-575 and 615-625): the least important
  of the first \<open>budget\<close> slots gives way to the new token when the new token's importance
  is strictly greater.
\<close>

definition replace_min :: "rat list \<Rightarrow> rat \<Rightarrow> nat \<Rightarrow> nat \<Rightarrow> evict_state \<Rightarrow> error + evict_state" where
  "replace_min row new_imp budget new_id st =
     (let current_active = take budget (active_tokens st)
      in case gather row current_active of
           Inl e \<Rightarrow> Inl e
         | Inr row_imps \<Rightarrow>
             (case torch_min row_imps of
                Inl e \<Rightarrow> Inl e
              | Inr (min_val, min_idx) \<Rightarrow>
                  if min_val < new_imp
                  then Inr (st\<lparr>active_tokens := (active_tokens st)[min_idx := new_id]\<rparr>)
                  else Inr st))"

text \<open>
  One pass of the loop body on the state (lines 483-503 and 609-625): a row below its
  budget appends the new token and counts it, any other row goes through \<open>replace_min\<close>.
\<close>

definition evict_step :: "nat \<Rightarrow> rat list \<Rightarrow> rat \<Rightarrow> nat \<Rightarrow> evict_state \<Rightarrow> error + evict_state" where
  "evict_step budget row new_imp i st =
     (if active_counts st < budget then
        (if active_counts st < length (active_tokens st)
         then Inr (st\<lparr>active_tokens := (active_tokens st)[active_counts st := i],
                      active_counts := active_counts st + 1\<rparr>)
         else Inl IndexError)
      else replace_min row new_imp budget i st)"

text \<open>
  \<open>valid_positions = arange(max_budget) < active_counts\<close> selects the slots below both
  bounds; reading a slot the array does not have raises.
\<close>

definition valid_tokens :: "nat \<Rightarrow> evict_state \<Rightarrow> error + nat list" where
  "valid_tokens max_budget st =
     (let n = min max_budget (active_counts st)
      in if n \<le> length (active_tokens st) then Inr (take n (active_tokens st))
         else Inl IndexError)"

definition unmask :: "nat list \<Rightarrow> score list \<Rightarrow> error + score list" where
  "unmask ts row =
     (if list_all (\<lambda>t. t < length row) ts
      then Inr (fold (\<lambda>t r. r[t := Fin 0]) ts row)
      else Inl IndexError)"

text \<open>The mask row of one query: \<open>-inf\<close> everywhere, \<open>0.0\<close> at the active tokens.\<close>

definition mask_row :: "nat \<Rightarrow> nat \<Rightarrow> evict_state \<Rightarrow> error + score list" where
  "mask_row max_budget kv_seq_len st =
     (case valid_tokens max_budget st of
        Inl e \<Rightarrow> Inl e
      | Inr ts \<Rightarrow> unmask ts (replicate kv_seq_len NegInf))"

text \<open>
  The importance row of step \<open>i\<close> has the \<open>i + 1\<close> entries of the tokens \<open>0..i\<close>
  (\<open>aggregator_pooled\<close> in SnapKV, \<open>attn_weights_2d[:, i, :i + 1]\<close> in H2O).
\<close>

definition imp_row :: "(nat \<Rightarrow> nat \<Rightarrow> rat) \<Rightarrow> nat \<Rightarrow> rat list" where
  "imp_row imp i = map (imp i) [0..<i + 1]"

text \<open>
  The loop over the query positions. The result lists, for each position in turn, the mask
  row written for it and the state left behind.
\<close>

fun evict_loop ::
  "(nat \<Rightarrow> nat) \<Rightarrow> (nat \<Rightarrow> nat \<Rightarrow> rat) \<Rightarrow> nat \<Rightarrow> nat \<Rightarrow> nat list \<Rightarrow> evict_state
     \<Rightarrow> error + (score list \<times> evict_state) list" where
  "evict_loop budget imp max_budget kv_seq_len [] st = Inr []"
| "evict_loop budget imp max_budget kv_seq_len (i # is) st =
     (case evict_step (budget i) (imp_row imp i) (imp i i) i st of
        Inl e \<Rightarrow> Inl e
      | Inr st' \<Rightarrow>
          (case mask_row max_budget kv_seq_len st' of
             Inl e \<Rightarrow> Inl e
           | Inr row \<Rightarrow>
               (case evict_loop budget imp max_budget kv_seq_len is st' of
                  Inl e \<Rightarrow> Inl e
                | Inr tr \<Rightarrow> Inr ((row, st') # tr))))"

text \<open>\<open>final_mask[:, :, :, :min_sparse_index] = 0.0\<close> on one row.\<close>

definition zero_prefix :: "nat \<Rightarrow> score list \<Rightarrow> score list" where
  "zero_prefix msi row = map (\<lambda>(j, v). if j < msi then Fin 0 else v) (enumerate 0 row)"

definition init_state :: "nat \<Rightarrow> evict_state" where
  "init_state max_budget = \<lparr>active_tokens = replicate max_budget 0, active_counts = 1\<rparr>"

definition init_row :: "nat \<Rightarrow> score list" where
  "init_row kv_seq_len = (replicate kv_seq_len NegInf)[0 := Fin 0]"

text \<open>
  SnapKV prefill (lines 426-525), from the pooled importances \<open>aggregator_pooled i j\<close> of
  token \<open>j\<close> at step \<open>i\<close>: the softmax, the prefix sums over the observation window and the
  max-pooling that produce them are floating-point work outside the model. The result is
  \<open>final_mask\<close>; its last row is what \<open>self.snapkv_cache\<close> keeps.
\<close>

definition snapkv_prefill ::
  "rat \<Rightarrow> nat \<Rightarrow> (nat \<Rightarrow> nat \<Rightarrow> rat) \<Rightarrow> nat \<Rightarrow> nat \<Rightarrow> error + score list list" where
  "snapkv_prefill sa msi aggregator_pooled q_len kv_seq_len =
     (let max_budget = nat (max (py_int (fmul (of_nat q_len) sa)) (int msi))
      in case evict_loop (step_budget sa msi) aggregator_pooled max_budget kv_seq_len
                [1..<q_len] (init_state max_budget) of
           Inl e \<Rightarrow> Inl e
         | Inr tr \<Rightarrow> Inr (map (zero_prefix msi) (init_row kv_seq_len # map fst tr)))"

text \<open>
  SnapKV decode (lines 418-424): the row kept at prefill is copied to the front of a row of
  \<open>-inf\<close> and everything behind it is set to \<open>0.0\<close>. No cached row, or one longer than
  the new row, raises.
\<close>

definition snapkv_decode :: "score list option \<Rightarrow> nat \<Rightarrow> error + score list" where
  "snapkv_decode snapkv_cache kv_seq_len =
     (case snapkv_cache of
        None \<Rightarrow> Inl AttributeError
      | Some c \<Rightarrow>
          (let extended_mask = replicate kv_seq_len NegInf;
               original_kv_len = length c
           in if kv_seq_len < original_kv_len then Inl RuntimeError
              else (let e1 = c @ drop original_kv_len extended_mask
                    in Inr (take original_kv_len e1
                            @ map (\<lambda>_. Fin 0) (drop original_kv_len e1)))))"

text \<open>
  The decode step of \<open>snapkv_prefill_wrong\<close> (lines 359-381): as above with the copy cut at
  \<open>limit\<close>; without a cached row no mask is built.
\<close>

definition snapkv_wrong_decode :: "score list option \<Rightarrow> nat \<Rightarrow> score list option" where
  "snapkv_wrong_decode snapkv_cache new_kv_len =
     (case snapkv_cache of
        None \<Rightarrow> None
      | Some c \<Rightarrow>
          (let extended_mask = replicate new_kv_len NegInf;
               limit = min new_kv_len (length c);
               e1 = take limit c @ drop limit extended_mask
           in Some (take limit e1 @ map (\<lambda>_. Fin 0) (drop limit e1))))"

text \<open>
  H2O prefill (lines 594-639), from the raw scores \<open>scores i j\<close> of query row \<open>i\<close> and key
  \<open>j\<close>. Line 599 writes slot 0 of the slot array and raises when the array has no slot.
  The result is \<open>final_mask\<close> with the state stored as \<open>h2o_importance_history\<close>.
\<close>

definition h2o_prefill ::
  "rat \<Rightarrow> nat \<Rightarrow> (nat \<Rightarrow> nat \<Rightarrow> rat) \<Rightarrow> nat \<Rightarrow> nat
     \<Rightarrow> error + (score list list \<times> evict_state)" where
  "h2o_prefill sa msi scores q_len kv_seq_len =
     (let max_budget = nat (max (py_int (fmul (of_nat kv_seq_len) sa)) (int msi))
      in if max_budget = 0 then Inl IndexError
         else
           (case evict_loop (kv_cache_budget sa msi) scores max_budget kv_seq_len
                   [1..<q_len] (init_state max_budget) of
              Inl e \<Rightarrow> Inl e
            | Inr tr \<Rightarrow>
                Inr (map (zero_prefix msi) (init_row kv_seq_len # map fst tr),
                     last (init_state max_budget # map snd tr))))"

text \<open>
  H2O decode (lines 539-589), from the scores \<open>scores_row j\<close> of the one query row and
  the stored state. The slot array is padded when it is no longer than the budget; a row
  below its budget writes the new token at slot \<open>count - 1\<close>; the mask row is not touched
  after the active tokens are written into it.
\<close>

definition h2o_decode ::
  "rat \<Rightarrow> nat \<Rightarrow> (nat \<Rightarrow> rat) \<Rightarrow> nat \<Rightarrow> evict_state \<Rightarrow> error + (score list \<times> evict_state)" where
  "h2o_decode sa msi scores_row kv_seq_len hist =
     (let max_budget = nat (max (py_int (fmul (of_nat kv_seq_len) sa)) (int msi));
          prev_active_tokens =
            (if length (active_tokens hist) \<le> max_budget
             then take (max_budget + 1) (active_tokens hist @ map (\<lambda>_. 0) (active_tokens hist))
             else active_tokens hist);
          prev_active_counts = active_counts hist;
          new_token_id = kv_seq_len - 1;
          row_weights = map scores_row [0..<new_token_id + 1];
          budget = kv_cache_budget sa msi new_token_id
      in case (if prev_active_counts < budget then
                 (case wrap_index (length prev_active_tokens) (int prev_active_counts - 1) of
                    Inl e \<Rightarrow> Inl e
                  | Inr k \<Rightarrow>
                      Inr \<lparr>active_tokens = prev_active_tokens[k := new_token_id],
                           active_counts = prev_active_counts + 1\<rparr>)
               else replace_min row_weights (scores_row new_token_id) budget new_token_id
                      \<lparr>active_tokens = prev_active_tokens, active_counts = prev_active_counts\<rparr>) of
           Inl e \<Rightarrow> Inl e
         | Inr st \<Rightarrow>
             (case mask_row max_budget kv_seq_len st of
                Inl e \<Rightarrow> Inl e
              | Inr row \<Rightarrow> Inr (row, st)))"

section \<open>The forward pass\<close>

text \<open>
  The cache classes come from \<open>transformers\<close>; the model keeps what \<open>forward\<close> reads of
  them: the class of the object; for a \<open>DynamicCache\<close> the number that its
  \<open>get_seq_length()\<close> returns; for a \<open>BaselineDynamicCache\<close> the number of keys it stores
  for this layer, which \<open>update\<close> extends, and its \<open>h2o_importance\<close> slot.
  \<open>OtherCache\<close> is an object of any other class.
\<close>

datatype past_kv =
    BaselineDynamicCache nat "evict_state option"
  | DynamicCache nat
  | OtherCache

text \<open>The attributes of the layer that \<open>forward\<close> reads.\<close>

record layer =
  layer_idx :: nat
  eval_llm_mode :: string
  sparse_aggression :: "pyfloat option"
  min_sparse_index :: nat
  head_dim :: nat
  group_factor :: nat
  snapkv_cache :: "score list option"

text \<open>
  What one call leaves behind, on one (batch, head) slice: the logits handed to the
  softmax, the variable \<open>final_mask\<close>, the cache returned and the row kept in
  \<open>self.snapkv_cache\<close>.
\<close>

record fwd_out =
  attn_weights :: "score list list"
  final_mask :: "score list list option"
  cache_out :: "past_kv option"
  snapkv_cache_out :: "score list option"

text \<open>Lines 183-186.\<close>

definition replace_cache :: "past_kv option \<Rightarrow> error + past_kv option" where
  "replace_cache pkv =
     (case pkv of
        None \<Rightarrow> Inr None
      | Some (BaselineDynamicCache n h) \<Rightarrow> Inr (Some (BaselineDynamicCache n h))
      | Some (DynamicCache n) \<Rightarrow>
          if n = 0 then Inr (Some (BaselineDynamicCache 0 None))
          else Inl (AssertionError ''If past_key_value is DynamicCache, then it must be empty'')
      | Some OtherCache \<Rightarrow> Inr (Some (BaselineDynamicCache 0 None)))"

text \<open>
  \<open>torch.matmul(query_states, key_states.transpose(-2, -1)) / math.sqrt(self.head_dim)\<close>
  on one slice, from its entries \<open>sc i j\<close>.
\<close>

definition qk :: "(nat \<Rightarrow> nat \<Rightarrow> rat) \<Rightarrow> nat \<Rightarrow> nat \<Rightarrow> score list list" where
  "qk sc q kv = map (\<lambda>i. map (\<lambda>j. Fin (sc i j)) [0..<kv]) [0..<q]"

text \<open>The branch shared by the policies that rank the keys (lines 292-300).\<close>

definition topk_gated ::
  "error + score list list \<Rightarrow> score list list \<Rightarrow> score list list \<Rightarrow> nat
     \<Rightarrow> error + (score list list \<times> score list list option)" where
  "topk_gated mt w am q =
     (case mt of
        Inl e \<Rightarrow> Inl e
      | Inr m \<Rightarrow> Inr (if q \<noteq> 1 then madd (madd w m) am else madd w m, Some m))"

text \<open>The same with the attention mask added whatever the query length (lines 316-319, 691-696).\<close>

definition topk_always ::
  "error + score list list \<Rightarrow> score list list \<Rightarrow> score list list
     \<Rightarrow> error + (score list list \<times> score list list option)" where
  "topk_always mt w am =
     (case mt of
        Inl e \<Rightarrow> Inl e
      | Inr m \<Rightarrow> Inr (madd (madd w m) am, Some m))"

text \<open>
  The dispatch on the policy, lines 262-700, in the order of the source. The arguments:
  the layer \<open>L\<close>, its kept fraction \<open>sa\<close>, the stored H2O state \<open>hist\<close>, the query and key
  lengths, the attention mask \<open>am\<close> and the raw scores \<open>sc\<close> of the slice. Three values
  come from code that is not in this module or is floating-point work and are arguments
  too: \<open>mt\<close>, what \<open>utils.sorted_index_to_mask\<close> returns on the policy's ranking (or the
  error raised on the way), \<open>pooled\<close>, the pooled SnapKV importances, and \<open>sm\<close>, what
  \<open>utils.snapkv_mask_only\<close> returns. The result: logits, \<open>final_mask\<close>,
  \<open>self.snapkv_cache\<close> and \<open>h2o_importance_history\<close>.
\<close>

definition dispatch ::
  "layer \<Rightarrow> rat \<Rightarrow> evict_state option \<Rightarrow> nat \<Rightarrow> nat \<Rightarrow> score list list
     \<Rightarrow> (nat \<Rightarrow> nat \<Rightarrow> rat) \<Rightarrow> error + score list list \<Rightarrow> (nat \<Rightarrow> nat \<Rightarrow> rat)
     \<Rightarrow> score list option
     \<Rightarrow> error + (score list list \<times> score list list option \<times> score list option
                  \<times> evict_state option)" where
  "dispatch L sa hist q kv am sc mt pooled sm =
     (let evalmode = eval_llm_mode L; w = qk sc q kv; msi = min_sparse_index L;
          sk = snapkv_cache L
      in
      if evalmode = ''dense'' then Inr (w, None, sk, hist)
      else if evalmode \<in> set [''oracle'', ''random'', ''init_oracle'', ''lookahead_oracle'']
              \<or> py_in ''oracle'' evalmode then
        (if 0 < layer_idx L then
           (if sa < 1 then
              (case topk_gated mt w am q of
                 Inl e \<Rightarrow> Inl e
               | Inr (a, fm) \<Rightarrow> Inr (a, fm, sk, hist))
            else Inr (w, None, sk, hist))
         else Inr (w, None, sk, hist))
      else if evalmode = ''streamingLLM'' then
        (if 0 < layer_idx L then
           (case topk_always mt w am of
              Inl e \<Rightarrow> Inl e
            | Inr (a, fm) \<Rightarrow> Inr (a, fm, sk, hist))
         else Inr (w, None, sk, hist))
      else if evalmode = ''oracle_grouped'' then
        (if 0 < layer_idx L then
           (case topk_always mt w am of
              Inl e \<Rightarrow> Inl e
            | Inr (a, fm) \<Rightarrow> Inr (a, fm, sk, hist))
         else Inr (w, None, sk, hist))
      else if evalmode = ''snapkv_prefill_wrong'' then
        (if 0 < layer_idx L then
           (if q = 1 then
              (case snapkv_wrong_decode sk kv of
                 None \<Rightarrow> Inr (w, None, sk, hist)
               | Some extended_mask \<Rightarrow> Inr (madd w [extended_mask], None, sk, hist))
            else
              (case sm of
                 None \<Rightarrow> Inr (w, None, None, hist)
               | Some new_mask \<Rightarrow>
                   Inr (butlast w @ map (\<lambda>r. map2 sadd r new_mask) (drop (q - 1) w),
                        None, Some new_mask, hist)))
         else Inr (w, None, sk, hist))
      else if evalmode = ''snapkv'' then
        (if 0 < layer_idx L then
           (if q = 1 then
              (case snapkv_decode sk kv of
                 Inl e \<Rightarrow> Inl e
               | Inr extended_mask \<Rightarrow> Inr (madd w [extended_mask], None, sk, hist))
            else
              (case snapkv_prefill sa msi pooled q kv of
                 Inl e \<Rightarrow> Inl e
               | Inr fm \<Rightarrow> Inr (madd w fm, Some fm, Some (last fm), hist)))
         else Inr (w, None, sk, hist))
      else if evalmode = ''h2o_true'' then
        (if 0 < layer_idx L then
           (case (if q = 1 then hist else None) of
              Some h \<Rightarrow>
                (case h2o_decode sa msi (sc 0) kv h of
                   Inl e \<Rightarrow> Inl e
                 | Inr (row, st) \<Rightarrow> Inr (madd w [row], Some [row], sk, Some st))
            | None \<Rightarrow>
                (case h2o_prefill sa msi sc q kv of
                   Inl e \<Rightarrow> Inl e
                 | Inr (fm, st) \<Rightarrow> Inr (madd w fm, Some fm, sk, Some st)))
         else Inr (w, None, sk, hist))
      else if evalmode = ''quest'' then
        (if 0 < layer_idx L then
           (case topk_always mt w am of
              Inl e \<Rightarrow> Inl e
            | Inr (a, fm) \<Rightarrow> Inr (a, fm, sk, hist))
         else Inr (w, None, sk, hist))
      else Inl (ValueError (''Unknown eval mode '' @ evalmode)))"

text \<open>Lines 225-228: the stored H2O state, if there is a cache.\<close>

definition get_h2o_importance :: "past_kv option \<Rightarrow> evict_state option" where
  "get_h2o_importance pkv = (case pkv of Some (BaselineDynamicCache n h) \<Rightarrow> h | _ \<Rightarrow> None)"

text \<open>
  Lines 233-236: with \<open>use_cache\<close> the new keys follow the stored ones, otherwise the
  keys are those of the query.
\<close>

definition key_len :: "past_kv option \<Rightarrow> bool \<Rightarrow> nat \<Rightarrow> nat" where
  "key_len pkv use_cache q =
     (if use_cache then (case pkv of Some (BaselineDynamicCache n h) \<Rightarrow> n | _ \<Rightarrow> 0) + q else q)"

text \<open>Lines 249-255: the caller's mask, or the one built in its place.\<close>

definition mask_or_causal :: "score list list option \<Rightarrow> nat \<Rightarrow> nat \<Rightarrow> score list list" where
  "mask_or_causal attention_mask q kv =
     (case attention_mask of None \<Rightarrow> causal_rows q kv | Some m \<Rightarrow> m)"

text \<open>
  \<open>forward\<close> on one slice, for a query of \<open>q\<close> \<ge> 1 tokens: the cache is replaced
  (lines 183-186), \<open>int(q_len * self.sparse_aggression)\<close> needs the fraction to be set
  and finite (line 220), the stored H2O state is read (lines 225-228), the cache takes the new keys
  (lines 233-236), a missing attention mask is built (lines 249-255), the grouping factor
  is asserted (line 258), the policy is dispatched, the attention mask is added unless the
  query is a single token (lines 702-703), and the H2O state is written back (lines
  750-754). The projections, the rotary embedding, the softmax, the product with the
  values and the sparsity accounting are outside the model.
\<close>

definition forward ::
  "layer \<Rightarrow> nat \<Rightarrow> score list list option \<Rightarrow> past_kv option \<Rightarrow> bool
     \<Rightarrow> (nat \<Rightarrow> nat \<Rightarrow> rat) \<Rightarrow> error + score list list \<Rightarrow> (nat \<Rightarrow> nat \<Rightarrow> rat)
     \<Rightarrow> score list option \<Rightarrow> error + fwd_out" where
  "forward L q attention_mask past_key_value use_cache sc mt pooled sm =
     (case replace_cache past_key_value of
        Inl e \<Rightarrow> Inl e
      | Inr pkv \<Rightarrow>
          (case sparse_aggression L of
             None \<Rightarrow> Inl TypeError
           | Some NaN \<Rightarrow> Inl (ValueError ''cannot convert float NaN to integer'')
           | Some PlusInf \<Rightarrow> Inl OverflowError
           | Some MinusInf \<Rightarrow> Inl OverflowError
           | Some (Num sa) \<Rightarrow>
               (let hist = get_h2o_importance pkv
                in if use_cache \<and> pkv = None then Inl AttributeError
                   else
                     (let kv = key_len pkv use_cache q;
                          am = mask_or_causal attention_mask q kv
                      in if group_factor L = 0 then Inl ZeroDivisionError
                         else if head_dim L mod group_factor L \<noteq> 0 then Inl (AssertionError [])
                         else
                           (case dispatch L sa hist q kv am sc mt pooled sm of
                              Inl e \<Rightarrow> Inl e
                            | Inr (a, fm, sk, hist') \<Rightarrow>
                                Inr \<lparr>attn_weights = (if q \<noteq> 1 then madd a am else a),
                                     final_mask = fm,
                                     cache_out =
                                       (if use_cache then
                                          (if eval_llm_mode L = ''h2o_true''
                                           then Some (BaselineDynamicCache kv hist')
                                           else Some (BaselineDynamicCache kv hist))
                                        else None),
                                     snapkv_cache_out = sk\<rparr>)))))"

section \<open>Rounding to an integer\<close>

lemma py_round_cases: "py_round q = \<lfloor>q\<rfloor> \<or> py_round q = \<lfloor>q\<rfloor> + 1"
  by (simp add: py_round_def Let_def)

lemma py_round_of_int [simp]: "py_round (of_int m) = m"
  by (simp add: py_round_def Let_def)

lemma py_round_ge: "of_int m \<le> q \<Longrightarrow> m \<le> py_round q"
proof -
  assume "of_int m \<le> q"
  then have "m \<le> \<lfloor>q\<rfloor>" by (simp add: le_floor_iff)
  with py_round_cases [of q] show ?thesis by auto
qed

lemma py_round_le: "q \<le> of_int m \<Longrightarrow> py_round q \<le> m"
proof (cases "q = of_int m")
  case True
  then show ?thesis by simp
next
  case False
  assume "q \<le> of_int m"
  with False have "q < of_int m" by simp
  then have "\<lfloor>q\<rfloor> < m" by (simp add: floor_less_iff)
  with py_round_cases [of q] show ?thesis by auto
qed

lemma py_round_mono: "q \<le> q' \<Longrightarrow> py_round q \<le> py_round q'"
proof -
  assume le: "q \<le> q'"
  have f: "\<lfloor>q\<rfloor> \<le> \<lfloor>q'\<rfloor>" using le by (rule floor_mono)
  show ?thesis
  proof (cases "\<lfloor>q\<rfloor> = \<lfloor>q'\<rfloor>")
    case True
    then have "q - of_int \<lfloor>q\<rfloor> \<le> q' - of_int \<lfloor>q'\<rfloor>" using le by simp
    then show ?thesis using True by (auto simp: py_round_def Let_def)
  next
    case False
    with f have "\<lfloor>q\<rfloor> + 1 \<le> \<lfloor>q'\<rfloor>" by simp
    with py_round_cases [of q] py_round_cases [of q'] show ?thesis by auto
  qed
qed

lemma py_round_below_half: "q < of_int m - 1 / 2 \<Longrightarrow> py_round q \<le> m - 1"
proof -
  assume lt: "q < of_int m - 1 / 2"
  then have "q < of_int m" by simp
  then have f: "\<lfloor>q\<rfloor> \<le> m - 1" by (simp add: floor_less_iff)
  show ?thesis
  proof (cases "\<lfloor>q\<rfloor> = m - 1")
    case True
    then have "q - of_int \<lfloor>q\<rfloor> < 1 / 2" using lt by simp
    then show ?thesis using True by (simp add: py_round_def Let_def)
  next
    case False
    with f have "\<lfloor>q\<rfloor> + 1 \<le> m - 1" by simp
    with py_round_cases [of q] show ?thesis by auto
  qed
qed

section \<open>The exponent\<close>

lemma pow2_less_imp: "(2::rat) powi a < 2 powi b \<Longrightarrow> a < b"
proof (rule ccontr)
  assume lt: "(2::rat) powi a < 2 powi b" and "\<not> a < b"
  then have "b \<le> a" by simp
  then have "(2::rat) powi b \<le> 2 powi a" by (intro power_int_increasing) simp_all
  with lt show False by simp
qed

lemma pow2_mono: "a \<le> b \<Longrightarrow> (2::rat) powi a \<le> 2 powi b"
  by (intro power_int_increasing) simp_all

lemma pow2_pos [simp]: "0 < (2::rat) powi a"
  by (simp add: zero_less_power_int)

lemma expo_bounds:
  assumes "0 < x"
  shows "2 powi expo x \<le> x \<and> x < 2 powi (expo x + 1)"
proof (cases "1 \<le> x")
  case True
  then have pos: "0 < \<lfloor>x\<rfloor>" by simp
  let ?b = "bitlen \<lfloor>x\<rfloor>"
  from bitlen_bounds [OF pos] have lo: "2 ^ nat (?b - 1) \<le> \<lfloor>x\<rfloor>" and hi: "\<lfloor>x\<rfloor> < 2 ^ nat ?b"
    by simp_all
  have b1: "1 \<le> ?b" using pos by (simp add: bitlen_alt_def)
  have e: "expo x = ?b - 1" using True by (simp add: expo_def)
  have "(2::rat) powi (?b - 1) = 2 ^ nat (?b - 1)" using b1 by (simp add: power_int_def)
  also have "\<dots> = of_int (2 ^ nat (?b - 1))" by simp
  also have "\<dots> \<le> of_int \<lfloor>x\<rfloor>" using lo by (simp only: of_int_le_iff)
  also have "\<dots> \<le> x" by simp
  finally have l: "2 powi expo x \<le> x" unfolding e .
  have "\<lfloor>x\<rfloor> + 1 \<le> 2 ^ nat ?b" using hi by simp
  then have "of_int (\<lfloor>x\<rfloor> + 1) \<le> (of_int (2 ^ nat ?b) :: rat)" by (simp only: of_int_le_iff)
  moreover have "x < of_int (\<lfloor>x\<rfloor> + 1)" by linarith
  ultimately have "x < of_int (2 ^ nat ?b)" by linarith
  also have "(of_int (2 ^ nat ?b) :: rat) = 2 powi ?b" using b1 by (simp add: power_int_def)
  finally have "x < 2 powi (expo x + 1)" unfolding e by simp
  with l show ?thesis by simp
next
  case False
  then have x1: "x < 1" by simp
  let ?y = "1 / x"
  have y1: "1 < ?y" using assms x1 by simp
  let ?c = "\<lceil>?y\<rceil>"
  have c2: "2 \<le> ?c" using y1 by linarith
  then have pos: "0 < ?c - 1" by simp
  let ?b = "bitlen (?c - 1)"
  from bitlen_bounds [OF pos] have lo: "2 ^ nat (?b - 1) \<le> ?c - 1" and hi: "?c - 1 < 2 ^ nat ?b"
    by simp_all
  have b1: "1 \<le> ?b" using pos by (simp add: bitlen_alt_def)
  have e: "expo x = - ?b" using False by (simp add: expo_def)
  have "?c \<le> 2 ^ nat ?b" using hi by simp
  then have "?y \<le> of_int (2 ^ nat ?b)" by (simp only: ceiling_le_iff)
  then have yle: "?y \<le> 2 ^ nat ?b" by simp
  have "1 \<le> 2 ^ nat ?b * x" using yle assms by (simp add: pos_divide_le_eq)
  then have "1 / (2 ^ nat ?b) \<le> x" by (simp add: pos_divide_le_eq mult.commute)
  moreover have "(2::rat) powi (- ?b) = 1 / 2 ^ nat ?b"
    using b1 by (simp add: power_int_def field_simps)
  ultimately have l: "2 powi expo x \<le> x" unfolding e by simp
  have "(of_int (2 ^ nat (?b - 1)) :: rat) \<le> of_int (?c - 1)" using lo by (simp only: of_int_le_iff)
  moreover have "of_int (?c - 1) < ?y" by linarith
  ultimately have ylt: "2 ^ nat (?b - 1) < ?y" by simp
  have "2 ^ nat (?b - 1) * x < 1" using ylt assms by (simp add: pos_less_divide_eq)
  then have "x < 1 / (2 ^ nat (?b - 1))" by (simp add: pos_less_divide_eq mult.commute)
  moreover have "(2::rat) powi (- ?b + 1) = 1 / 2 ^ nat (?b - 1)"
  proof -
    have "- ?b + 1 = - (?b - 1)" by simp
    then have "(2::rat) powi (- ?b + 1) = 2 powi (- (?b - 1))" by simp
    also have "\<dots> = 1 / 2 powi (?b - 1)" by (simp only: power_int_minus_divide)
    also have "2 powi (?b - 1) = (2::rat) ^ nat (?b - 1)" using b1 by (simp add: power_int_def)
    finally show ?thesis .
  qed
  ultimately have "x < 2 powi (expo x + 1)" unfolding e by simp
  with l show ?thesis by simp
qed

lemma expo_unique:
  assumes "2 powi e \<le> x" and "x < 2 powi (e + 1)"
  shows "expo x = e"
proof -
  have pos: "0 < x" using pow2_pos assms(1) by (rule less_le_trans)
  from expo_bounds [OF pos] have b: "2 powi expo x \<le> x" "x < 2 powi (expo x + 1)" by simp_all
  have "(2::rat) powi e < 2 powi (expo x + 1)" using assms(1) b(2) by simp
  then have 1: "e < expo x + 1" by (rule pow2_less_imp)
  have "(2::rat) powi expo x < 2 powi (e + 1)" using assms(2) b(1) by simp
  then have 2: "expo x < e + 1" by (rule pow2_less_imp)
  from 1 2 show ?thesis by simp
qed

lemma expo_mono:
  assumes "0 < x" and "x \<le> y"
  shows "expo x \<le> expo y"
proof -
  have y: "0 < y" using assms by simp
  from expo_bounds [OF assms(1)] expo_bounds [OF y]
  have "(2::rat) powi expo x < 2 powi (expo y + 1)" using assms(2) by simp
  then have "expo x < expo y + 1" by (rule pow2_less_imp)
  then show ?thesis by simp
qed


section \<open>Rounding to binary64\<close>

lemma ulp_mult:
  "2 ^ 52 * (2::rat) powi (e - 52) = 2 powi e" "2 ^ 53 * (2::rat) powi (e - 52) = 2 powi (e + 1)"
proof -
  have "(2::rat) powi (52 + (e - 52)) = 2 powi 52 * 2 powi (e - 52)"
    by (rule power_int_add) simp
  then show "2 ^ 52 * (2::rat) powi (e - 52) = 2 powi e" by simp
  have "(2::rat) powi (53 + (e - 52)) = 2 powi 53 * 2 powi (e - 52)"
    by (rule power_int_add) simp
  then show "2 ^ 53 * (2::rat) powi (e - 52) = 2 powi (e + 1)" by (simp add: add.commute)
qed

lemma mantissa_bounds:
  assumes "0 < x"
  shows "2 ^ 52 \<le> x / 2 powi (expo x - 52)" and "x / 2 powi (expo x - 52) < 2 ^ 53"
proof -
  let ?u = "(2::rat) powi (expo x - 52)"
  have u: "0 < ?u" by simp
  from expo_bounds [OF assms] have lo: "2 powi expo x \<le> x" and hi: "x < 2 powi (expo x + 1)"
    by simp_all
  show "2 ^ 52 \<le> x / ?u" using lo u ulp_mult(1) [of "expo x"] by (simp add: pos_le_divide_eq)
  show "x / ?u < 2 ^ 53" using hi u ulp_mult(2) [of "expo x"] by (simp add: pos_divide_less_eq)
qed

lemma fl_pos_bounds:
  assumes "0 < x"
  shows "2 powi expo x \<le> fl_pos x" and "fl_pos x \<le> 2 powi (expo x + 1)"
proof -
  let ?u = "(2::rat) powi (expo x - 52)"
  let ?r = "py_round (x / ?u)"
  have u: "0 < ?u" by simp
  have "of_int (2 ^ 52) \<le> x / ?u" using mantissa_bounds(1) [OF assms] by simp
  then have "2 ^ 52 \<le> ?r" by (rule py_round_ge)
  then have "(of_int (2 ^ 52) :: rat) \<le> of_int ?r" by (simp only: of_int_le_iff)
  then have "2 ^ 52 * ?u \<le> of_int ?r * ?u" using u by (intro mult_right_mono) simp_all
  then show "2 powi expo x \<le> fl_pos x"
    unfolding ulp_mult by (simp add: fl_pos_def Let_def)
  have "x / ?u \<le> of_int (2 ^ 53)" using mantissa_bounds(2) [OF assms] by simp
  then have "?r \<le> 2 ^ 53" by (rule py_round_le)
  then have "(of_int ?r :: rat) \<le> of_int (2 ^ 53)" by (simp only: of_int_le_iff)
  then have "of_int ?r * ?u \<le> 2 ^ 53 * ?u" using u by (intro mult_right_mono) simp_all
  then show "fl_pos x \<le> 2 powi (expo x + 1)"
    unfolding ulp_mult by (simp add: fl_pos_def Let_def)
qed

lemma fl_pos_pos: "0 < x \<Longrightarrow> 0 < fl_pos x"
  using fl_pos_bounds(1) [of x] pow2_pos [of "expo x"] by (rule_tac less_le_trans) auto

lemma fl_pos_mono:
  assumes "0 < x" and "x \<le> y"
  shows "fl_pos x \<le> fl_pos y"
proof -
  have y: "0 < y" using assms by simp
  have le: "expo x \<le> expo y" using assms by (rule expo_mono)
  show ?thesis
  proof (cases "expo x = expo y")
    case True
    let ?u = "(2::rat) powi (expo y - 52)"
    have u: "0 < ?u" by simp
    have "x / ?u \<le> y / ?u" using assms(2) u by (simp add: divide_right_mono)
    then have "py_round (x / ?u) \<le> py_round (y / ?u)" by (rule py_round_mono)
    then have "(of_int (py_round (x / ?u)) :: rat) \<le> of_int (py_round (y / ?u))"
      by (simp only: of_int_le_iff)
    then have "of_int (py_round (x / ?u)) * ?u \<le> of_int (py_round (y / ?u)) * ?u"
      using u by (simp add: mult_right_mono)
    then show ?thesis by (simp add: fl_pos_def Let_def True)
  next
    case False
    with le have "expo x + 1 \<le> expo y" by simp
    then have "(2::rat) powi (expo x + 1) \<le> 2 powi expo y" by (rule pow2_mono)
    with fl_pos_bounds(2) [OF assms(1)] fl_pos_bounds(1) [OF y] show ?thesis by simp
  qed
qed

lemma fl_nonneg: "0 \<le> x \<Longrightarrow> 0 \<le> fl x"
  using fl_pos_pos [of x] by (auto simp: fl_def intro: less_imp_le)

lemma fl_nonpos: "x \<le> 0 \<Longrightarrow> fl x \<le> 0"
  using fl_pos_pos [of "- x"] by (auto simp: fl_def intro: less_imp_le)

lemma fl_mono:
  assumes "x \<le> y"
  shows "fl x \<le> fl y"
proof -
  consider "0 < x" | "y < 0" | "x \<le> 0" and "0 \<le> y" by linarith
  then show ?thesis
  proof cases
    case 1
    then have "0 < y" using assms by simp
    with 1 fl_pos_mono [OF 1 assms] show ?thesis by (simp add: fl_def)
  next
    case 2
    then have x: "x < 0" using assms by simp
    have "fl_pos (- y) \<le> fl_pos (- x)" using 2 assms by (intro fl_pos_mono) simp_all
    with 2 x show ?thesis by (simp add: fl_def)
  next
    case 3
    with fl_nonpos [of x] fl_nonneg [of y] show ?thesis by simp
  qed
qed

text \<open>A number with a significand below \<open>2^53\<close> is a binary64 number.\<close>

lemma fl_exact:
  assumes "0 < m" and "m < 2 ^ 53"
  shows "fl (of_int m * 2 powi z) = of_int m * 2 powi z"
proof -
  let ?x = "of_int m * (2::rat) powi z"
  have pos: "0 < ?x" using assms(1) by simp
  let ?e = "expo ?x"
  let ?u = "(2::rat) powi (?e - 52)"
  have "(of_int m :: rat) < of_int (2 ^ 53)" using assms(2) by (simp only: of_int_less_iff)
  then have "?x < 2 ^ 53 * 2 powi z" by (simp add: mult_strict_right_mono)
  also have "2 ^ 53 * (2::rat) powi z = 2 powi (z + 53)"
    using ulp_mult(2) [of "z + 52"] by (simp add: add.commute)
  finally have "(2::rat) powi ?e < 2 powi (z + 53)"
    using expo_bounds [OF pos] by simp
  then have "?e < z + 53" by (rule pow2_less_imp)
  then have k: "0 \<le> z - ?e + 52" by simp
  have "(2::rat) powi z / ?u = 2 powi (z - (?e - 52))" by (simp add: power_int_diff)
  also have "\<dots> = 2 ^ nat (z - ?e + 52)" using k by (simp add: power_int_def algebra_simps)
  finally have d: "(2::rat) powi z / ?u = 2 ^ nat (z - ?e + 52)" .
  have "?x / ?u = of_int m * ((2::rat) powi z / ?u)" by (simp only: times_divide_eq_right)
  also have "\<dots> = of_int m * 2 ^ nat (z - ?e + 52)" by (simp only: d)
  also have "\<dots> = of_int (m * 2 ^ nat (z - ?e + 52))" by simp
  finally have q: "?x / ?u = of_int (m * 2 ^ nat (z - ?e + 52))" .
  have "fl_pos ?x = of_int (py_round (?x / ?u)) * ?u" by (simp add: fl_pos_def Let_def)
  also have "\<dots> = (?x / ?u) * ?u" unfolding q py_round_of_int ..
  also have "\<dots> = ?x" by simp
  finally show ?thesis using pos by (simp add: fl_def)
qed

lemma fl_of_nat: "n < 2 ^ 53 \<Longrightarrow> fl (of_nat n) = of_nat n"
proof (cases "n = 0")
  case True
  then show ?thesis by (simp add: fl_def)
next
  case False
  assume "n < 2 ^ 53"
  then have "int n < 2 ^ 53" by (metis of_nat_less_iff of_nat_numeral of_nat_power)
  from fl_exact [of "int n" 0, OF _ this] False show ?thesis by simp
qed

text \<open>
  Just below a whole number \<open>c\<close>: what is at most \<open>c (1 - 2^-53)\<close> is rounded below \<open>c\<close>.
\<close>

lemma fl_below_int:
  assumes "0 < z" and "z \<le> of_int c * (1 - 1 / 2 ^ 53)" and "c \<le> 2 ^ 53"
  shows "fl z < of_int c"
proof -
  let ?e = "expo z"
  let ?u = "(2::rat) powi (?e - 52)"
  have u: "0 < ?u" by simp
  have cpos: "0 < (of_int c :: rat)"
  proof (rule ccontr)
    assume "\<not> 0 < (of_int c :: rat)"
    then have "(of_int c :: rat) \<le> 0" by simp
    then have "of_int c * (1 - 1 / 2 ^ 53) \<le> (0::rat)" by (simp add: mult_le_0_iff)
    with assms(1,2) show False by simp
  qed
  have zc: "z < of_int c"
  proof -
    have "of_int c * (1 - 1 / 2 ^ 53) < (of_int c :: rat) * 1"
      using cpos by (intro mult_strict_left_mono) simp_all
    with assms(2) show ?thesis by simp
  qed
  have "(of_int c :: rat) \<le> of_int (2 ^ 53)" using assms(3) by (simp only: of_int_le_iff)
  with zc have "z < 2 powi 53" by simp
  with expo_bounds [OF assms(1)] have "(2::rat) powi ?e < 2 powi 53" by simp
  then have "?e < 53" by (rule pow2_less_imp)
  then have k: "0 \<le> 52 - ?e" by simp
  define C where "C = c * 2 ^ nat (52 - ?e)"
  have "1 / ?u = 2 powi (- (?e - 52))" by (simp only: power_int_minus_divide)
  also have "\<dots> = 2 ^ nat (52 - ?e)" using k by (simp add: power_int_def)
  finally have inv: "1 / ?u = 2 ^ nat (52 - ?e)" .
  have C: "of_int c / ?u = of_int C"
  proof -
    have "of_int c / ?u = of_int c * (1 / ?u)" by simp
    then show ?thesis unfolding inv C_def by simp
  qed
  have big: "2 ^ 52 < (of_int C :: rat)"
  proof -
    have "2 ^ 52 \<le> z / ?u" using mantissa_bounds(1) [OF assms(1)] .
    also have "z / ?u < of_int c / ?u" using zc u by (simp add: divide_strict_right_mono)
    finally show ?thesis unfolding C .
  qed
  have "z / ?u \<le> of_int c * (1 - 1 / 2 ^ 53) / ?u"
    using assms(2) less_imp_le [OF u] by (rule divide_right_mono)
  also have "\<dots> = of_int C * (1 - 1 / 2 ^ 53)" using C by (simp add: field_simps)
  also have "\<dots> = of_int C - of_int C / 2 ^ 53" by (simp add: algebra_simps)
  also have "\<dots> < of_int C - 1 / 2" using big by simp
  finally have "py_round (z / ?u) \<le> C - 1" by (rule py_round_below_half)
  then have "(of_int (py_round (z / ?u)) :: rat) \<le> of_int (C - 1)" by (simp only: of_int_le_iff)
  then have "of_int (py_round (z / ?u)) * ?u \<le> of_int (C - 1) * ?u"
    using u by (simp add: mult_right_mono)
  also have "of_int (C - 1) * ?u = of_int C * ?u - ?u" by (simp add: algebra_simps)
  also have "of_int C * ?u = of_int c" using C u by (simp add: field_simps)
  finally have "fl_pos z \<le> of_int c - ?u" by (simp add: fl_pos_def Let_def)
  with u have "fl_pos z < of_int c" by linarith
  then show ?thesis using assms(1) by (simp add: fl_def)
qed


text \<open>A binary64 number below one is at most \<open>1 - 2^-53\<close>.\<close>

lemma double_below_one:
  assumes "fl s = s" and "s \<le> 1"
  shows "s = 1 \<or> s \<le> 1 - 1 / 2 ^ 53"
proof (cases "s \<le> 1 / 2 \<or> s = 1")
  case True
  then show ?thesis by auto
next
  case False
  then have lo: "1 / 2 < s" and hi: "s < 1" using assms(2) by auto
  then have pos: "0 < s" by simp
  have e: "expo s = - 1"
  proof (rule expo_unique)
    show "(2::rat) powi (- 1) \<le> s" using lo by (simp add: power_int_minus_divide)
    show "s < 2 powi (- 1 + 1)" using hi by simp
  qed
  let ?u = "(2::rat) powi (- 53)"
  let ?r = "py_round (s / ?u)"
  have u: "?u = 1 / 2 ^ 53" by (simp add: power_int_minus_divide)
  have "fl_pos s = s" using assms(1) pos by (simp add: fl_def)
  then have s: "s = of_int ?r * ?u" by (simp add: fl_pos_def Let_def e)
  have "of_int ?r * ?u < 1" using hi s by simp
  then have "(of_int ?r :: rat) < of_int (2 ^ 53)" unfolding u by simp
  then have "?r < 2 ^ 53" by (simp only: of_int_less_iff)
  then have "?r \<le> 2 ^ 53 - 1" by simp
  then have "(of_int ?r :: rat) \<le> of_int (2 ^ 53 - 1)" by (simp only: of_int_le_iff)
  then have "of_int ?r * ?u \<le> of_int (2 ^ 53 - 1) * ?u" by (intro mult_right_mono) simp_all
  also have "\<dots> = 1 - 1 / 2 ^ 53" unfolding u by simp
  finally show ?thesis using s by simp
qed

text \<open>
  One more token raises the truncated product by at most one, for a binary64 fraction of at most
  one and fewer than \<open>2^26\<close> tokens.
\<close>

lemma fl_unit_growth:
  assumes s: "s = 1 \<or> s \<le> 1 - 1 / 2 ^ 53" and n: "n + 1 \<le> 2 ^ 26"
  shows "\<lfloor>fl (of_nat (n + 1) * s)\<rfloor> \<le> \<lfloor>fl (of_nat n * s)\<rfloor> + 1"
proof -
  have n53: "n < 2 ^ 53" "n + 1 < 2 ^ 53"
    using n by (simp_all add: order.strict_trans1 [where b = "2 ^ 26"])
  consider "s = 1" | "s \<le> 0" | "0 < s" and "s \<le> 1 - 1 / 2 ^ 53" using s by linarith
  then show ?thesis
  proof cases
    case 1
    then show ?thesis using fl_of_nat [OF n53(1)] fl_of_nat [OF n53(2)] by simp
  next
    case 2
    then have "of_nat (n + 1) * s \<le> of_nat n * s"
      by (intro mult_right_mono_neg) simp_all
    then have "fl (of_nat (n + 1) * s) \<le> fl (of_nat n * s)" by (rule fl_mono)
    then have "\<lfloor>fl (of_nat (n + 1) * s)\<rfloor> \<le> \<lfloor>fl (of_nat n * s)\<rfloor>" by (rule floor_mono)
    then show ?thesis by simp
  next
    case 3
    let ?x = "of_nat n * s" and ?y = "of_nat (n + 1) * s"
    define k where "k = \<lfloor>fl ?x\<rfloor>"
    have x0: "0 \<le> ?x" using 3(1) by simp
    have k0: "0 \<le> k" unfolding k_def using fl_nonneg [OF x0] by simp
    have ypos: "0 < ?y" using 3(1) by simp
    have "of_nat (n + 1) * s \<le> (of_nat (n + 1) :: rat) * (1 - 1 / 2 ^ 53)"
      using 3(2) by (intro mult_left_mono) simp_all
    then have ylt: "?y \<le> of_int (int (n + 1)) * (1 - 1 / 2 ^ 53)"
      by (simp only: of_int_of_nat_eq)
    have ybelow: "fl ?y < of_int (int (n + 1))"
      using ypos ylt
    proof (rule fl_below_int)
      show "int (n + 1) \<le> 2 ^ 53" using n53(2) by (metis less_imp_le of_nat_le_iff of_nat_numeral of_nat_power)
    qed
    have xk: "?x < of_int k + 1"
    proof (rule ccontr)
      assume "\<not> ?x < of_int k + 1"
      then have le: "of_int (k + 1) \<le> ?x" by simp
      have "?x \<le> of_nat n" using 3(2) by (simp add: mult_left_le)
      with le have "(of_int (k + 1) :: rat) \<le> of_int (int n)" by simp
      then have "k + 1 \<le> int n" by (simp only: of_int_le_iff)
      then have "k + 1 < 2 ^ 53" using n53(1)
        by (metis less_le_trans linorder_not_le of_nat_less_iff of_nat_numeral of_nat_power order_le_less_trans)
      with k0 fl_exact [of "k + 1" 0] have "fl (of_int (k + 1)) = of_int (k + 1)" by simp
      with fl_mono [OF le] have "of_int (k + 1) \<le> fl ?x" by simp
      then have "k + 1 \<le> \<lfloor>fl ?x\<rfloor>" by (simp only: le_floor_iff)
      then show False unfolding k_def by simp
    qed
    have "fl ?y < of_int k + 2"
    proof (cases "int n \<le> k + 1")
      case True
      then have "(of_int (int (n + 1)) :: rat) \<le> of_int (k + 2)"
        by (simp only: of_int_le_iff)
      with ybelow show ?thesis by simp
    next
      case False
      then have j: "k + 2 \<le> int n" by simp
      then have "(of_int (k + 2) :: rat) \<le> of_int (int n)" by (simp only: of_int_le_iff)
      then have kn: "of_int k + 2 \<le> (of_nat n :: rat)" by simp
      have npos: "0 < (of_nat n :: rat)" using kn k0 by simp
      have "of_nat n * (1 - s) = of_nat n - ?x" by (simp add: algebra_simps)
      also have "\<dots> > 1" using xk kn by simp
      finally have "1 < of_nat n * (1 - s)" .
      then have "1 / of_nat n < 1 - s" using npos by (simp add: pos_divide_less_eq mult.commute)
      moreover have "1 / 2 ^ 26 \<le> 1 / (of_nat n :: rat)"
      proof -
        have "(of_nat n :: rat) \<le> of_nat (2 ^ 26)" using n by (simp only: of_nat_le_iff)
        then show ?thesis using npos by (simp add: frac_le)
      qed
      ultimately have st: "s < 1 - 1 / 2 ^ 26" by simp
      define m where "m = (k + 2) * 2 ^ 26 - 1"
      define d :: rat where "d = of_int k + 2 - 1 / 2 ^ 26"
      have "?y = ?x + s" by (simp add: algebra_simps)
      also have "\<dots> < (of_int k + 1) + (1 - 1 / 2 ^ 26)" using xk st by (rule add_strict_mono)
      finally have yd: "?y \<le> d" unfolding d_def by simp
      have m0: "0 < m" unfolding m_def using k0 by simp
      have "k + 2 \<le> 2 ^ 26" using j n by simp
      then have "(k + 2) * 2 ^ 26 \<le> 2 ^ 26 * (2 ^ 26 :: int)" by (intro mult_right_mono) simp_all
      then have m53: "m < 2 ^ 53" unfolding m_def by simp
      have "d = of_int m * 2 powi (- 26)"
        unfolding d_def m_def by (simp add: power_int_minus_divide field_simps)
      then have "fl d = d" by (simp only: fl_exact [OF m0 m53])
      with fl_mono [OF yd] have "fl ?y \<le> d" by simp
      then show ?thesis unfolding d_def by simp
    qed
    then have "\<lfloor>fl ?y\<rfloor> < k + 2" by (simp add: floor_less_iff)
    then show ?thesis unfolding k_def by simp
  qed
qed

section \<open>Arithmetic of the budgets\<close>

lemma py_int_mono: "x \<le> y \<Longrightarrow> py_int x \<le> py_int y"
proof -
  assume xy: "x \<le> y"
  show ?thesis
  proof (cases "0 \<le> x")
    case True
    with xy show ?thesis by (simp add: py_int_def floor_mono)
  next
    case neg: False
    show ?thesis
    proof (cases "0 \<le> y")
      case True
      have "\<lceil>x\<rceil> \<le> 0" using neg by (simp add: ceiling_le_zero)
      moreover have "0 \<le> \<lfloor>y\<rfloor>" using True by simp
      ultimately have "\<lceil>x\<rceil> \<le> \<lfloor>y\<rfloor>" by linarith
      then show ?thesis using neg True by (simp add: py_int_def)
    next
      case False
      with neg xy show ?thesis by (simp add: py_int_def ceiling_mono)
    qed
  qed
qed

lemma step_budget_max: "step_budget sa msi i = max (nat (py_int (fmul (of_nat (i + 1)) sa))) msi"
  unfolding step_budget_def by (auto simp: max_def)

lemma kv_cache_budget_eq: "kv_cache_budget sa msi i = step_budget sa msi i"
  unfolding step_budget_def kv_cache_budget_def by (simp add: max.commute)

lemma py_int_nonneg: "0 \<le> x \<Longrightarrow> py_int x = \<lfloor>x\<rfloor>"
  by (simp add: py_int_def)

lemma py_int_nonpos: "x \<le> 0 \<Longrightarrow> py_int x \<le> 0"
  by (auto simp: py_int_def ceiling_le_zero)

lemma fmul_nonneg: "0 \<le> sa \<Longrightarrow> 0 \<le> fmul (of_nat n) sa"
  unfolding fmul_def by (rule fl_nonneg) simp

lemma step_budget_neg: "sa < 0 \<Longrightarrow> step_budget sa msi i = msi"
proof -
  assume a: "sa < 0"
  have "of_nat (i + 1) * sa \<le> 0" using a by (simp add: mult_le_0_iff)
  then have "fmul (of_nat (i + 1)) sa \<le> 0" unfolding fmul_def by (rule fl_nonpos)
  then have "py_int (fmul (of_nat (i + 1)) sa) \<le> 0" by (rule py_int_nonpos)
  then show ?thesis unfolding step_budget_def by (simp add: max_def)
qed

lemma step_budget_Suc: "step_budget sa msi i \<le> step_budget sa msi (Suc i)"
proof (cases "0 \<le> sa")
  case True
  then have "of_nat (i + 1) * sa \<le> of_nat (Suc i + 1) * sa" by (simp add: mult_right_mono)
  then have "fmul (of_nat (i + 1)) sa \<le> fmul (of_nat (Suc i + 1)) sa"
    unfolding fmul_def by (rule fl_mono)
  then have "py_int (fmul (of_nat (i + 1)) sa) \<le> py_int (fmul (of_nat (Suc i + 1)) sa)"
    by (rule py_int_mono)
  then show ?thesis unfolding step_budget_def by (intro nat_mono max.mono) simp_all
next
  case False
  then show ?thesis by (simp add: step_budget_neg)
qed

lemma step_budget_mono: "i \<le> j \<Longrightarrow> step_budget sa msi i \<le> step_budget sa msi j"
  by (rule lift_Suc_mono_le [of "step_budget sa msi"]) (simp_all add: step_budget_Suc)

lemma step_budget_msi: "msi \<le> step_budget sa msi i"
  by (simp add: step_budget_max)

text \<open>
  With a binary64 kept fraction of at most 1 and fewer than \<open>2^26\<close> tokens the budget grows
  by at most one a step.
\<close>

lemma step_budget_Suc_le:
  assumes "fl sa = sa" and "sa \<le> 1" and "i + 2 \<le> 2 ^ 26"
  shows "step_budget sa msi (Suc i) \<le> Suc (step_budget sa msi i)"
proof (cases "0 \<le> sa")
  case False
  then show ?thesis by (simp add: step_budget_neg)
next
  case True
  let ?x = "fmul (of_nat (i + 1)) sa" and ?y = "fmul (of_nat (Suc i + 1)) sa"
  have s: "sa = 1 \<or> sa \<le> 1 - 1 / 2 ^ 53" using assms(1,2) by (rule double_below_one)
  have n: "(i + 1) + 1 \<le> 2 ^ 26" using assms(3) by simp
  from fl_unit_growth [OF s n] have "\<lfloor>?y\<rfloor> \<le> \<lfloor>?x\<rfloor> + 1" by (simp add: fmul_def)
  then have "py_int ?y \<le> py_int ?x + 1"
    using fmul_nonneg [OF True, of "i + 1"] fmul_nonneg [OF True, of "Suc i + 1"]
    by (simp only: py_int_nonneg)
  moreover have "0 \<le> py_int ?x" using fmul_nonneg [OF True, of "i + 1"] by (simp add: py_int_nonneg)
  ultimately show ?thesis unfolding step_budget_def by (auto simp: max_def)
qed

text \<open>
  The rounded product is cut down to the whole part of the exact product or to one more.
\<close>

lemma floor_fl_between:
  assumes "0 \<le> x" and "\<lfloor>x\<rfloor> + 1 < 2 ^ 53"
  shows "\<lfloor>x\<rfloor> \<le> \<lfloor>fl x\<rfloor>" and "\<lfloor>fl x\<rfloor> \<le> \<lfloor>x\<rfloor> + 1"
proof -
  have f0: "0 \<le> \<lfloor>x\<rfloor>" using assms(1) by simp
  have lo: "fl (of_int \<lfloor>x\<rfloor>) = of_int \<lfloor>x\<rfloor>"
  proof (cases "\<lfloor>x\<rfloor> = 0")
    case True
    then show ?thesis by (simp add: fl_def)
  next
    case False
    have p: "0 < \<lfloor>x\<rfloor>" using f0 False by linarith
    have q: "\<lfloor>x\<rfloor> < 2 ^ 53" using assms(2) by linarith
    from fl_exact [OF p q, of 0] show ?thesis by simp
  qed
  have p1: "0 < \<lfloor>x\<rfloor> + 1" using f0 by linarith
  have hi: "fl (of_int (\<lfloor>x\<rfloor> + 1)) = of_int (\<lfloor>x\<rfloor> + 1)"
    using fl_exact [OF p1 assms(2), of 0] by simp
  have "fl (of_int \<lfloor>x\<rfloor>) \<le> fl x" by (rule fl_mono) simp
  then have "of_int \<lfloor>x\<rfloor> \<le> fl x" unfolding lo .
  then show "\<lfloor>x\<rfloor> \<le> \<lfloor>fl x\<rfloor>" by (simp only: le_floor_iff)
  have "x \<le> of_int (\<lfloor>x\<rfloor> + 1)" by linarith
  then have "fl x \<le> fl (of_int (\<lfloor>x\<rfloor> + 1))" by (rule fl_mono)
  then have "fl x \<le> of_int (\<lfloor>x\<rfloor> + 1)" unfolding hi .
  then have "\<lfloor>fl x\<rfloor> \<le> \<lfloor>(of_int (\<lfloor>x\<rfloor> + 1) :: rat)\<rfloor>" by (rule floor_mono)
  then show "\<lfloor>fl x\<rfloor> \<le> \<lfloor>x\<rfloor> + 1" by (simp only: floor_of_int)
qed

section \<open>The budget of a step\<close>

text \<open>
  Claim C4, as the code has it. \<open>sa\<close> is the kept fraction \<open>self.sparse_aggression\<close>, a
  float between 0 and 1 that the specification writes \<open>1 - aggression\<close>. The budget of step
  \<open>i\<close> (counted from 0) in the SnapKV loop, in the H2O loop and in the H2O decode step is
  the greater of \<open>min_sparse_index\<close> and the float product \<open>(i + 1) * sa\<close>, rounded to
  binary64, cut down to an integer (not rounded to the nearest one). That integer is the
  whole part of the exact product or one more than it. The budget never decreases as \<open>i\<close>
  grows.
\<close>

theorem step_budget_truncates_and_grows:
  assumes "0 \<le> sa" and "sa \<le> 1" and "i + 2 < 2 ^ 53"
  shows "step_budget sa msi i = max (nat \<lfloor>fl (of_nat (i + 1) * sa)\<rfloor>) msi
       \<and> kv_cache_budget sa msi i = max (nat \<lfloor>fl (of_nat (i + 1) * sa)\<rfloor>) msi
       \<and> max (nat \<lfloor>of_nat (i + 1) * sa\<rfloor>) msi \<le> step_budget sa msi i
       \<and> step_budget sa msi i \<le> max (nat \<lfloor>of_nat (i + 1) * sa\<rfloor> + 1) msi
       \<and> step_budget sa msi i \<le> step_budget sa msi (i + d)
       \<and> kv_cache_budget sa msi i \<le> kv_cache_budget sa msi (i + d)"
proof -
  let ?x = "of_nat (i + 1) * sa"
  have x0: "0 \<le> ?x" using assms(1) by simp
  have "?x \<le> of_nat (i + 1)" using assms(2) by (simp add: mult_left_le)
  then have "\<lfloor>?x\<rfloor> \<le> \<lfloor>(of_nat (i + 1) :: rat)\<rfloor>" by (rule floor_mono)
  then have "\<lfloor>?x\<rfloor> \<le> int (i + 1)" by (simp only: floor_of_nat)
  moreover have "int (i + 2) < 2 ^ 53"
    using assms(3) by (metis of_nat_less_iff of_nat_numeral of_nat_power)
  moreover have "int (i + 1) + 1 = int (i + 2)" by simp
  ultimately have small: "\<lfloor>?x\<rfloor> + 1 < 2 ^ 53" by linarith
  have "py_int (fmul (of_nat (i + 1)) sa) = \<lfloor>fl ?x\<rfloor>"
    using fmul_nonneg [OF assms(1), of "i + 1"] by (simp add: py_int_nonneg fmul_def)
  then have eq: "step_budget sa msi i = max (nat \<lfloor>fl ?x\<rfloor>) msi"
    by (simp only: step_budget_max)
  have lo: "max (nat \<lfloor>?x\<rfloor>) msi \<le> max (nat \<lfloor>fl ?x\<rfloor>) msi"
    using floor_fl_between(1) [OF x0 small] by (intro max.mono nat_mono) simp_all
  have "nat \<lfloor>fl ?x\<rfloor> \<le> nat \<lfloor>?x\<rfloor> + 1"
    using floor_fl_between(2) [OF x0 small] by simp
  then have hi: "max (nat \<lfloor>fl ?x\<rfloor>) msi \<le> max (nat \<lfloor>?x\<rfloor> + 1) msi"
    by (intro max.mono) simp_all
  have mono: "step_budget sa msi i \<le> step_budget sa msi (i + d)"
    by (rule step_budget_mono) simp
  show ?thesis using eq lo hi mono by (simp only: kv_cache_budget_eq simp_thms)
qed

text \<open>
  With the float nearest to 0.7 as kept fraction the budget of step 89 is 62: the product
  \<open>90 * 0.7\<close> is rounded to the float just below 63. With the float \<open>1 - 80 / 100.\<close>
  that the schedule \<open>fixed_80pc\<close> assigns, the budget of step 9 is 1.
\<close>

theorem step_budget_truncates_and_grows_witness:
  "(0::rat) \<le> 3152519739159347 / 4503599627370496
   \<and> (3152519739159347 / 4503599627370496 :: rat) \<le> 1
   \<and> (89::nat) + 2 < 2 ^ 53
   \<and> fl (7 / 10) = 3152519739159347 / 4503599627370496
   \<and> step_budget (3152519739159347 / 4503599627370496) 2 89 = 62
   \<and> step_budget (fl (1 - fl (80 / 100))) 0 9 = 1
   \<and> step_budget (3152519739159347 / 4503599627370496) 2 89
       = max (nat \<lfloor>fl (of_nat (89 + 1) * (3152519739159347 / 4503599627370496))\<rfloor>) 2
   \<and> step_budget (3152519739159347 / 4503599627370496) 2 89
       \<le> step_budget (3152519739159347 / 4503599627370496) 2 (89 + 3)"
proof -
  have h: "(0::rat) \<le> 3152519739159347 / 4503599627370496"
    "(3152519739159347 / 4503599627370496 :: rat) \<le> 1" "(89::nat) + 2 < 2 ^ 53"
    by simp_all
  have d: "fl (7 / 10) = 3152519739159347 / 4503599627370496" by code_simp
  have v: "step_budget (3152519739159347 / 4503599627370496) 2 89 = 62" by code_simp
  have w: "step_budget (fl (1 - fl (80 / 100))) 0 9 = 1" by code_simp
  show ?thesis
    using h d v w step_budget_truncates_and_grows [OF h, of 2 3] by blast
qed

text \<open>
  Claim C4 as it is worded fails: at step 4 with a quarter of the tokens dropped the product
  is 3.75, a float; the code's budget is 3, the rounded budget is 4.
\<close>

theorem step_budget_round_counterexample:
  "fl (3 / 4) = 3 / 4 \<and> fl (1 / 4) = 1 / 4
   \<and> step_budget (3 / 4) 0 4 = 3 \<and> kv_cache_budget (3 / 4) 0 4 = 3
   \<and> spec_step_budget (1 / 4) 0 4 = 4
   \<and> step_budget (3 / 4) 0 4 \<noteq> spec_step_budget (1 / 4) 0 4"
  by code_simp

section \<open>The causal mask\<close>

lemma length_causal_rows: "length (causal_rows Q K) = Q"
  by (simp add: causal_rows_def triu_def ones_def zeros_like_def masked_fill_def Let_def)

lemma length_causal_row: "i < Q \<Longrightarrow> length (causal_rows Q K ! i) = K"
  by (simp add: causal_rows_def triu_def ones_def zeros_like_def masked_fill_def Let_def
      nth_enumerate_eq)

lemma nth_causal_rows:
  "i < Q \<Longrightarrow> j < K \<Longrightarrow> causal_rows Q K ! i ! j = (if i < j then NegInf else Fin 0)"
  by (auto simp: causal_rows_def triu_def ones_def zeros_like_def masked_fill_def Let_def
      nth_enumerate_eq)

text \<open>The shape of the mask, and where it agrees with the specification.\<close>

lemma build_causal_mask_shape:
  assumes "b < bsz" and "i < Q"
  shows "length (build_causal_mask bsz Q K) = bsz
       \<and> length (build_causal_mask bsz Q K ! b) = 1
       \<and> length (build_causal_mask bsz Q K ! b ! 0) = Q
       \<and> length (build_causal_mask bsz Q K ! b ! 0 ! i) = K"
  using assms by (simp add: build_causal_mask_def length_causal_rows length_causal_row)

lemma build_causal_mask_square:
  assumes "b < bsz" and "i < Q" and "j < Q"
  shows "build_causal_mask bsz Q Q ! b ! 0 ! i ! j = spec_causal_entry Q Q i j"
  using assms by (simp add: build_causal_mask_def nth_causal_rows spec_causal_entry_def)

text \<open>
  Claim C5 does not hold of the code. With more keys than query rows (\<open>K > Q\<close>, the case of
  a decode step over a cache) the query row \<open>i\<close> stands for the key position
  \<open>i + (K - Q)\<close>. The specification, and the sibling code paths that take the last
  \<open>q_len\<close> rows of a ranking, leave that position and the ones before it open. The mask of
  lines 252-255 is \<open>triu(diagonal=1)\<close> of a \<open>Q \<times> K\<close> matrix, which takes no account of
  \<open>K - Q\<close>: it suppresses every key after column \<open>i\<close>, among them the query's own.
\<close>

theorem causal_mask_hides_own_key:
  assumes "b < bsz" and "i < Q" and "Q < K"
  shows "build_causal_mask bsz Q K ! b ! 0 ! i ! (i + (K - Q)) = NegInf
       \<and> spec_causal_entry Q K i (i + (K - Q)) = Fin 0
       \<and> (\<forall>j. i < j \<and> j \<le> i + (K - Q) \<longrightarrow>
             build_causal_mask bsz Q K ! b ! 0 ! i ! j = NegInf
           \<and> spec_causal_entry Q K i j = Fin 0)"
proof -
  have "build_causal_mask bsz Q K ! b ! 0 ! i ! j = NegInf \<and> spec_causal_entry Q K i j = Fin 0"
    if "i < j" and "j \<le> i + (K - Q)" for j
  proof -
    have "j < K" using that(2) assms(2,3) by simp
    then show ?thesis
      using assms(1,2) that by (simp add: build_causal_mask_def nth_causal_rows spec_causal_entry_def)
  qed
  moreover have "i < i + (K - Q)" using assms(3) by simp
  ultimately show ?thesis by blast
qed

text \<open>
  Two query rows over four keys: row 0 stands for key position 2 and is closed from key 1
  on. A decode step of \<open>streamingLLM\<close> over a cache of one key, whose policy mask leaves
  both keys open: the new token does not see its own key.
\<close>

theorem causal_mask_hides_own_key_witness:
  "(0::nat) < 1 \<and> (0::nat) < 2 \<and> (2::nat) < 4
   \<and> build_causal_mask 1 2 4 ! 0 ! 0 ! 0 = [Fin 0, NegInf, NegInf, NegInf]
   \<and> map (spec_causal_entry 2 4 0) [0, 1, 2, 3] = [Fin 0, Fin 0, Fin 0, NegInf]
   \<and> build_causal_mask 1 2 4 ! 0 ! 0 ! 0 ! (0 + (4 - 2)) = NegInf
   \<and> spec_causal_entry 2 4 0 (0 + (4 - 2)) = Fin 0
   \<and> forward \<lparr>layer_idx = 1, eval_llm_mode = ''streamingLLM'',
        sparse_aggression = Some (Num (1 / 2)),
        min_sparse_index = 0, head_dim = 8, group_factor = 4, snapkv_cache = None\<rparr>
        1 None (Some (BaselineDynamicCache 1 None)) True (\<lambda>i j. 1)
        (Inr [[Fin 0, Fin 0]]) (\<lambda>i j. 0) None
      = Inr \<lparr>attn_weights = [[Fin 1, NegInf]], final_mask = Some [[Fin 0, Fin 0]],
             cache_out = Some (BaselineDynamicCache 2 None), snapkv_cache_out = None\<rparr>"
proof -
  have h: "(0::nat) < 1" "(0::nat) < 2" "(2::nat) < 4" by simp_all
  have v: "build_causal_mask 1 2 4 ! 0 ! 0 ! 0 = [Fin 0, NegInf, NegInf, NegInf]" by code_simp
  have s: "map (spec_causal_entry 2 4 0) [0, 1, 2, 3] = [Fin 0, Fin 0, Fin 0, NegInf]"
    by code_simp
  have f: "forward \<lparr>layer_idx = 1, eval_llm_mode = ''streamingLLM'',
        sparse_aggression = Some (Num (1 / 2)),
        min_sparse_index = 0, head_dim = 8, group_factor = 4, snapkv_cache = None\<rparr>
        1 None (Some (BaselineDynamicCache 1 None)) True (\<lambda>i j. 1)
        (Inr [[Fin 0, Fin 0]]) (\<lambda>i j. 0) None
      = Inr \<lparr>attn_weights = [[Fin 1, NegInf]], final_mask = Some [[Fin 0, Fin 0]],
             cache_out = Some (BaselineDynamicCache 2 None), snapkv_cache_out = None\<rparr>"
    by code_simp
  show ?thesis using h v s f causal_mask_hides_own_key [OF h] by blast
qed

section \<open>The schedule\<close>

text \<open>
  Claim C6. \<open>set_token_sparsity\<close> gives: for \<open>fixed_25pc\<close> at layer 5 a dropped fraction of
  0.25 (kept 0.75); for \<open>progressive_10pc\<close> at layer 3 a kept fraction of 0.9^3 = 0.729; for
  \<open>LazyLLM\<close> no drop at layer 9 and 30% at layer 10, and at any layer \<open>l\<close>: no drop up to
  layer 9, 30% up to 19, 60% up to 28 and 90% beyond.
\<close>

theorem set_token_sparsity_values:
  "set_token_sparsity (Some ''fixed_25pc'') 5 = Inr (Num (3 / 4)) \<and> drop_fraction (3 / 4) = 1 / 4
   \<and> set_token_sparsity (Some ''progressive_10pc'') 3 = Inr (Num ((9 / 10) ^ 3))
   \<and> (9 / 10 :: rat) ^ 3 = 729 / 1000
   \<and> set_token_sparsity (Some ''LazyLLM'') 9 = Inr (Num 1) \<and> drop_fraction 1 = 0
   \<and> set_token_sparsity (Some ''LazyLLM'') 10 = Inr (Num (7 / 10))
   \<and> drop_fraction (7 / 10) = 3 / 10
   \<and> (case set_token_sparsity (Some ''LazyLLM'') l of
          Inr (Num r) \<Rightarrow> drop_fraction r = (if l \<le> 9 then 0 else if l \<le> 19 then 3 / 10
                                            else if l \<le> 28 then 6 / 10 else 9 / 10)
        | _ \<Rightarrow> False)"
proof -
  have a: "set_token_sparsity (Some ''fixed_25pc'') 5 = Inr (Num (3 / 4))" by code_simp
  have b: "set_token_sparsity (Some ''progressive_10pc'') 3 = Inr (Num ((9 / 10) ^ 3))"
    by code_simp
  have c: "(9 / 10 :: rat) ^ 3 = 729 / 1000" by (simp add: power3_eq_cube)
  have d: "set_token_sparsity (Some ''LazyLLM'') 9 = Inr (Num 1)"
    "set_token_sparsity (Some ''LazyLLM'') 10 = Inr (Num (7 / 10))"
    by (simp_all add: set_token_sparsity_def)
  have e: "case set_token_sparsity (Some ''LazyLLM'') l of
          Inr (Num r) \<Rightarrow> drop_fraction r = (if l \<le> 9 then 0 else if l \<le> 19 then 3 / 10
                                            else if l \<le> 28 then 6 / 10 else 9 / 10)
        | _ \<Rightarrow> False"
    by (simp add: set_token_sparsity_def drop_fraction_def)
  have f: "drop_fraction (3 / 4) = 1 / 4" "drop_fraction 1 = 0" "drop_fraction (7 / 10) = 3 / 10"
    by (simp_all add: drop_fraction_def)
  show ?thesis using a b c d e f by (simp only: simp_thms)
qed

theorem set_token_sparsity_values_witness:
  "(case set_token_sparsity (Some ''LazyLLM'') 29 of
      Inr (Num r) \<Rightarrow> drop_fraction r = (if (29::nat) \<le> 9 then 0 else if (29::nat) \<le> 19 then 3 / 10
                                        else if (29::nat) \<le> 28 then 6 / 10 else 9 / 10)
    | _ \<Rightarrow> False)"
  using set_token_sparsity_values [of 29] by blast
section \<open>The cache handed to forward\<close>

text \<open>
  Claim C9. When \<open>forward\<close> is called with a \<open>past_key_value\<close> that is not a
  \<open>BaselineDynamicCache\<close>: a plain \<open>DynamicCache\<close> that stores a sequence of non-zero
  length makes the call fail with an assertion error; any other object is dropped and the
  call goes on as with a fresh, empty \<open>BaselineDynamicCache\<close>.
\<close>

theorem forward_foreign_cache:
  "(n \<noteq> 0 \<longrightarrow>
      forward L q am (Some (DynamicCache n)) uc sc mt pooled sm
        = Inl (AssertionError ''If past_key_value is DynamicCache, then it must be empty''))
   \<and> replace_cache (Some (DynamicCache 0)) = Inr (Some (BaselineDynamicCache 0 None))
   \<and> replace_cache (Some OtherCache) = Inr (Some (BaselineDynamicCache 0 None))
   \<and> forward L q am (Some (DynamicCache 0)) uc sc mt pooled sm
        = forward L q am (Some (BaselineDynamicCache 0 None)) uc sc mt pooled sm
   \<and> forward L q am (Some OtherCache) uc sc mt pooled sm
        = forward L q am (Some (BaselineDynamicCache 0 None)) uc sc mt pooled sm"
  by (simp add: forward_def replace_cache_def)

theorem forward_foreign_cache_witness:
  "(3::nat) \<noteq> 0
   \<and> forward \<lparr>layer_idx = 1, eval_llm_mode = ''dense'', sparse_aggression = Some (Num (1 / 2)),
        min_sparse_index = 0, head_dim = 8, group_factor = 4, snapkv_cache = None\<rparr>
        1 None (Some (DynamicCache 3)) True (\<lambda>i j. 0) (Inl RuntimeError) (\<lambda>i j. 0) None
      = Inl (AssertionError ''If past_key_value is DynamicCache, then it must be empty'')"
proof -
  have h: "(3::nat) \<noteq> 0" by simp
  show ?thesis
    using h forward_foreign_cache [of 3 "\<lparr>layer_idx = 1, eval_llm_mode = ''dense'',
        sparse_aggression = Some (Num (1 / 2)), min_sparse_index = 0, head_dim = 8, group_factor = 4,
        snapkv_cache = None\<rparr>" 1 None True "\<lambda>i j. 0" "Inl RuntimeError" "\<lambda>i j. 0" None]
    by blast
qed

section \<open>Unknown names\<close>

lemma py_float_error:
  "py_float s = Inl e \<Longrightarrow> e = ValueError ''could not convert string to float''"
  unfolding py_float_def Let_def
  by (simp split: if_splits option.splits prod.splits)

lemma pc_field_error:
  "pc_field m = Inl e \<Longrightarrow> e = IndexError \<or> e = ValueError ''could not convert string to float''"
  unfolding pc_field_def by (auto split: list.splits dest: py_float_error)

lemma py_pow_error: "py_pow b n = Inl e \<Longrightarrow> e = OverflowError"
  by (cases b; cases n) (auto split: if_splits)

lemma set_token_sparsity_unknown_iff:
  "set_token_sparsity (Some m) l = Inl (ValueError (''Unknown token sparsity method '' @ m))
   \<longleftrightarrow> m \<noteq> ''LazyLLM'' \<and> \<not> py_in ''fixed'' m \<and> \<not> py_in ''progressive'' m"
  by (auto simp: set_token_sparsity_def split: if_splits sum.splits
      dest!: pc_field_error py_pow_error)

text \<open>
  Claim C7 as it is worded fails. The tests on the names are substring tests
  (\<open>"fixed" in name\<close>, \<open>"oracle" in evalmode\<close>), so names that are none of the known
  schedules or policies are taken without an error: the schedule \<open>unfixed_25pc\<close> sets the
  kept fraction 0.75 at layer 5, and the policy \<open>oracle_typo\<close> produces the output of
  \<open>oracle\<close>.
\<close>

theorem unknown_names_accepted_counterexample:
  "\<not> spec_known_schedule ''unfixed_25pc''
   \<and> set_token_sparsity (Some ''unfixed_25pc'') 5 = Inr (Num (3 / 4))
   \<and> \<not> spec_known_policy ''oracle_typo''
   \<and> forward \<lparr>layer_idx = 1, eval_llm_mode = ''oracle_typo'',
        sparse_aggression = Some (Num (1 / 2)),
        min_sparse_index = 0, head_dim = 8, group_factor = 4, snapkv_cache = None\<rparr>
        2 None (Some (DynamicCache 0)) True (\<lambda>i j. 1)
        (Inr [[Fin 0, NegInf], [NegInf, Fin 0]]) (\<lambda>i j. 0) None
      = Inr \<lparr>attn_weights = [[Fin 1, NegInf], [NegInf, Fin 1]],
             final_mask = Some [[Fin 0, NegInf], [NegInf, Fin 0]],
             cache_out = Some (BaselineDynamicCache 2 None), snapkv_cache_out = None\<rparr>
   \<and> forward \<lparr>layer_idx = 1, eval_llm_mode = ''oracle'',
        sparse_aggression = Some (Num (1 / 2)),
        min_sparse_index = 0, head_dim = 8, group_factor = 4, snapkv_cache = None\<rparr>
        2 None (Some (DynamicCache 0)) True (\<lambda>i j. 1)
        (Inr [[Fin 0, NegInf], [NegInf, Fin 0]]) (\<lambda>i j. 0) None
      = Inr \<lparr>attn_weights = [[Fin 1, NegInf], [NegInf, Fin 1]],
             final_mask = Some [[Fin 0, NegInf], [NegInf, Fin 0]],
             cache_out = Some (BaselineDynamicCache 2 None), snapkv_cache_out = None\<rparr>"
  by code_simp

text \<open>
  Claim C7, as the code has it. \<open>set_token_sparsity\<close> raises the \<open>ValueError\<close> of an
  unknown method exactly for the schedule names that are not \<open>LazyLLM\<close> and contain
  neither \<open>fixed\<close> nor \<open>progressive\<close>. \<open>forward\<close> with a policy name that is none of
  \<open>dense\<close>, \<open>random\<close>, \<open>streamingLLM\<close>, \<open>snapkv_prefill_wrong\<close>, \<open>snapkv\<close>,
  \<open>h2o_true\<close>, \<open>quest\<close> and does not contain \<open>oracle\<close> never returns an output: it
  raises, and what it raises is the \<open>ValueError\<close> of an unknown mode once the steps before
  the dispatch have passed.
\<close>

theorem unknown_names_raise:
  assumes "eval_llm_mode L \<notin> set [''dense'', ''random'', ''streamingLLM'',
            ''snapkv_prefill_wrong'', ''snapkv'', ''h2o_true'', ''quest'']"
    and "\<not> py_in ''oracle'' (eval_llm_mode L)"
  shows "(set_token_sparsity (Some m) l
            = Inl (ValueError (''Unknown token sparsity method '' @ m))
          \<longleftrightarrow> m \<noteq> ''LazyLLM'' \<and> \<not> py_in ''fixed'' m \<and> \<not> py_in ''progressive'' m)
       \<and> (\<exists>e. forward L q am pkv uc sc mt pooled sm = Inl e)
       \<and> (replace_cache pkv = Inr pkv' \<and> sparse_aggression L = Some (Num sa)
            \<and> \<not> (uc \<and> pkv' = None) \<and> group_factor L \<noteq> 0
            \<and> head_dim L mod group_factor L = 0
          \<longrightarrow> forward L q am pkv uc sc mt pooled sm
                = Inl (ValueError (''Unknown eval mode '' @ eval_llm_mode L)))"
proof -
  have d: "dispatch L sa hist q kv a sc mt pooled sm
             = Inl (ValueError (''Unknown eval mode '' @ eval_llm_mode L))" for sa hist kv a
    using assms by (auto simp: dispatch_def Let_def)
  have f1: "\<exists>e. forward L q am pkv uc sc mt pooled sm = Inl e"
    by (auto simp: forward_def Let_def d split: sum.splits option.splits pyfloat.splits)
  have f2: "replace_cache pkv = Inr pkv' \<and> sparse_aggression L = Some (Num sa)
            \<and> \<not> (uc \<and> pkv' = None) \<and> group_factor L \<noteq> 0
            \<and> head_dim L mod group_factor L = 0
          \<longrightarrow> forward L q am pkv uc sc mt pooled sm
                = Inl (ValueError (''Unknown eval mode '' @ eval_llm_mode L))"
    by (auto simp: forward_def Let_def d split: sum.splits option.splits)
  show ?thesis using set_token_sparsity_unknown_iff [of m l] f1 f2 by (simp only: simp_thms)
qed

theorem unknown_names_raise_witness:
  "''topk_10pc'' \<noteq> ''LazyLLM'' \<and> \<not> py_in ''fixed'' ''topk_10pc''
   \<and> \<not> py_in ''progressive'' ''topk_10pc''
   \<and> \<not> py_in ''oracle'' ''h2o''
   \<and> set_token_sparsity (Some ''topk_10pc'') 3
        = Inl (ValueError ''Unknown token sparsity method topk_10pc'')
   \<and> forward \<lparr>layer_idx = 1, eval_llm_mode = ''h2o'', sparse_aggression = Some (Num (1 / 2)),
        min_sparse_index = 0, head_dim = 8, group_factor = 4, snapkv_cache = None\<rparr>
        3 None (Some (DynamicCache 0)) True (\<lambda>i j. 0) (Inl RuntimeError) (\<lambda>i j. 0) None
      = Inl (ValueError ''Unknown eval mode h2o'')"
proof -
  let ?L = "\<lparr>layer_idx = 1, eval_llm_mode = ''h2o'', sparse_aggression = Some (Num (1 / 2)),
        min_sparse_index = 0, head_dim = 8, group_factor = 4, snapkv_cache = None\<rparr>"
  have h1: "''topk_10pc'' \<noteq> ''LazyLLM''" by simp
  have h2: "\<not> py_in ''fixed'' ''topk_10pc''" by simp
  have h3: "\<not> py_in ''progressive'' ''topk_10pc''" by simp
  have h4: "eval_llm_mode ?L \<notin> set [''dense'', ''random'', ''streamingLLM'',
            ''snapkv_prefill_wrong'', ''snapkv'', ''h2o_true'', ''quest'']" by simp
  have h5: "\<not> py_in ''oracle'' (eval_llm_mode ?L)" by simp
  have pre: "replace_cache (Some (DynamicCache 0)) = Inr (Some (BaselineDynamicCache 0 None))"
    by (simp add: replace_cache_def)
  show ?thesis
    using unknown_names_raise [OF h4 h5, where m = "''topk_10pc''" and l = 3 and q = 3
        and am = None and pkv = "Some (DynamicCache 0)"
        and pkv' = "Some (BaselineDynamicCache 0 None)" and sa = "1 / 2"
        and uc = True and sc = "\<lambda>i j. 0" and mt = "Inl RuntimeError" and pooled = "\<lambda>i j. 0"
        and sm = None] pre h1 h2 h3
    by simp
qed

section \<open>Layer 0\<close>

lemma dispatch_layer0:
  "layer_idx L = 0 \<Longrightarrow>
     dispatch L sa hist q kv am sc mt pooled sm = Inr (qk sc q kv, None, snapkv_cache L, hist)
     \<or> dispatch L sa hist q kv am sc mt pooled sm
          = Inl (ValueError (''Unknown eval mode '' @ eval_llm_mode L))"
  by (simp add: dispatch_def Let_def)

text \<open>
  Claim C8, as the code has it. For every policy, a layer with \<open>layer_idx = 0\<close> applies no
  selection mask: its logits are the scaled scores plus the causal/attention mask when the
  query has more than one token, and the scaled scores alone (no mask at all) for a
  single-token query; in both cases they are what the \<open>dense\<close> policy gives.
\<close>

theorem layer0_dense:
  assumes "layer_idx L = 0"
    and "forward L q attention_mask pkv uc sc mt pooled sm = Inr out"
    and "replace_cache pkv = Inr pkv'"
  shows "final_mask out = None
       \<and> attn_weights out
           = (if q \<noteq> 1
              then madd (qk sc q (key_len pkv' uc q))
                     (mask_or_causal attention_mask q (key_len pkv' uc q))
              else qk sc q (key_len pkv' uc q))
       \<and> forward (L\<lparr>eval_llm_mode := ''dense''\<rparr>) q attention_mask pkv uc sc mt pooled sm = Inr out"
proof -
  from assms(2,3) obtain sa where sa: "sparse_aggression L = Some (Num sa)"
    by (auto simp: forward_def split: option.splits pyfloat.splits)
  let ?kv = "key_len pkv' uc q"
  let ?am = "mask_or_causal attention_mask q ?kv"
  let ?h = "get_h2o_importance pkv'"
  from assms(2,3) sa have ok: "dispatch L sa ?h q ?kv ?am sc mt pooled sm
        \<noteq> Inl (ValueError (''Unknown eval mode '' @ eval_llm_mode L))"
    by (auto simp: forward_def Let_def split: if_splits)
  with dispatch_layer0 [OF assms(1)]
  have d: "dispatch L sa ?h q ?kv ?am sc mt pooled sm = Inr (qk sc q ?kv, None, snapkv_cache L, ?h)"
    by blast
  have dd: "dispatch (L\<lparr>eval_llm_mode := ''dense''\<rparr>) sa ?h q ?kv ?am sc mt pooled sm
              = Inr (qk sc q ?kv, None, snapkv_cache L, ?h)"
    by (simp add: dispatch_def Let_def)
  from assms(2,3) sa d have out: "out = \<lparr>attn_weights = (if q \<noteq> 1 then madd (qk sc q ?kv) ?am else qk sc q ?kv),
        final_mask = None,
        cache_out = (if uc then Some (BaselineDynamicCache ?kv ?h) else None),
        snapkv_cache_out = snapkv_cache L\<rparr>"
    by (auto simp: forward_def Let_def split: if_splits)
  have pre: "\<not> (uc \<and> pkv' = None)" "group_factor L \<noteq> 0" "head_dim L mod group_factor L = 0"
    using assms(2,3) sa by (auto simp: forward_def Let_def split: if_splits)
  have "forward (L\<lparr>eval_llm_mode := ''dense''\<rparr>) q attention_mask pkv uc sc mt pooled sm = Inr out"
    using assms(3) sa dd pre unfolding out by (simp add: forward_def Let_def)
  then show ?thesis unfolding out by simp
qed

theorem layer0_dense_witness:
  "forward \<lparr>layer_idx = 0, eval_llm_mode = ''h2o_true'', sparse_aggression = Some (Num (1 / 2)),
        min_sparse_index = 0, head_dim = 8, group_factor = 4, snapkv_cache = None\<rparr>
        2 None (Some (DynamicCache 0)) True (\<lambda>i j. 1) (Inl RuntimeError) (\<lambda>i j. 0) None
      = Inr \<lparr>attn_weights = [[Fin 1, NegInf], [Fin 1, Fin 1]], final_mask = None,
             cache_out = Some (BaselineDynamicCache 2 None), snapkv_cache_out = None\<rparr>
   \<and> forward \<lparr>layer_idx = 0, eval_llm_mode = ''dense'', sparse_aggression = Some (Num (1 / 2)),
        min_sparse_index = 0, head_dim = 8, group_factor = 4, snapkv_cache = None\<rparr>
        2 None (Some (DynamicCache 0)) True (\<lambda>i j. 1) (Inl RuntimeError) (\<lambda>i j. 0) None
      = Inr \<lparr>attn_weights = [[Fin 1, NegInf], [Fin 1, Fin 1]], final_mask = None,
             cache_out = Some (BaselineDynamicCache 2 None), snapkv_cache_out = None\<rparr>"
proof -
  let ?L = "\<lparr>layer_idx = 0, eval_llm_mode = ''h2o_true'', sparse_aggression = Some (Num (1 / 2)),
        min_sparse_index = 0, head_dim = 8, group_factor = 4, snapkv_cache = None\<rparr>"
  let ?out = "\<lparr>attn_weights = [[Fin 1, NegInf], [Fin 1, Fin 1]], final_mask = None,
             cache_out = Some (BaselineDynamicCache 2 None), snapkv_cache_out = None\<rparr>"
  have h1: "layer_idx ?L = 0" by simp
  have h2: "forward ?L 2 None (Some (DynamicCache 0)) True (\<lambda>i j. 1) (Inl RuntimeError)
              (\<lambda>i j. 0) None = Inr ?out"
    by code_simp
  have h3: "replace_cache (Some (DynamicCache 0)) = Inr (Some (BaselineDynamicCache 0 None))"
    by (simp add: replace_cache_def)
  show ?thesis using h2 layer0_dense [OF h1 h2 h3] by simp
qed

text \<open>
  Claim C8 as it is worded fails for a single-token query: the attention mask is not
  added, so a key the caller's mask suppresses keeps its finite logit.
\<close>

theorem layer0_decode_mask_counterexample:
  "forward \<lparr>layer_idx = 0, eval_llm_mode = ''snapkv'', sparse_aggression = Some (Num (1 / 2)),
        min_sparse_index = 0, head_dim = 8, group_factor = 4, snapkv_cache = None\<rparr>
        1 (Some [[NegInf, Fin 0]]) (Some (BaselineDynamicCache 1 None)) True (\<lambda>i j. 1)
        (Inl RuntimeError) (\<lambda>i j. 0) None
      = Inr \<lparr>attn_weights = [[Fin 1, Fin 1]], final_mask = None,
             cache_out = Some (BaselineDynamicCache 2 None), snapkv_cache_out = None\<rparr>
   \<and> madd (qk (\<lambda>i j. 1) 1 2) [[NegInf, Fin 0]] = [[NegInf, Fin 1]]
   \<and> [[Fin 1, Fin 1]] \<noteq> madd (qk (\<lambda>i j. 1) 1 2) [[NegInf, Fin 0]]"
  by code_simp

section \<open>The SnapKV decode step\<close>

lemma snapkv_decode_Some:
  "length c \<le> kv \<Longrightarrow> snapkv_decode (Some c) kv = Inr (c @ replicate (kv - length c) (Fin 0))"
  by (simp add: snapkv_decode_def Let_def map_replicate_const)

lemma snapkv_wrong_decode_Some:
  "snapkv_wrong_decode (Some c) kv = Some (take kv c @ replicate (kv - length c) (Fin 0))"
  by (simp add: snapkv_wrong_decode_def Let_def map_replicate_const min_def)

lemma nth_qk: "i < q \<Longrightarrow> j < kv \<Longrightarrow> qk sc q kv ! i ! j = Fin (sc i j)"
  by (simp add: qk_def)

lemma madd_single_row:
  "j < kv \<Longrightarrow> length ext = kv \<Longrightarrow> ext ! j = Fin 0 \<Longrightarrow> madd (qk sc 1 kv) [ext] ! 0 ! j = Fin (sc 0 j)"
  by (simp add: madd_def qk_def)

text \<open>
  Claim C10. In the single-token decode branch of \<open>snapkv\<close> (and of
  \<open>snapkv_prefill_wrong\<close>), every key position at or behind the length of the kept mask
  row gets 0.0 in the extended mask: the logit of such a key is its scaled score, whatever
  the budget.
\<close>

theorem snapkv_decode_appended_open:
  assumes "eval_llm_mode L = ''snapkv'' \<or> eval_llm_mode L = ''snapkv_prefill_wrong''"
    and "0 < layer_idx L" and "snapkv_cache L = Some c" and "length c \<le> j" and "j < kv"
  shows "(\<exists>ext. snapkv_decode (Some c) kv = Inr ext \<and> length ext = kv \<and> ext ! j = Fin 0)
       \<and> (\<exists>ext. snapkv_wrong_decode (Some c) kv = Some ext \<and> length ext = kv \<and> ext ! j = Fin 0)
       \<and> (\<exists>a fm sk h. dispatch L sa hist 1 kv am sc mt pooled sm = Inr (a, fm, sk, h)
                      \<and> a ! 0 ! j = Fin (sc 0 j))"
proof -
  let ?e = "c @ replicate (kv - length c) (Fin 0)"
  let ?e' = "take kv c @ replicate (kv - length c) (Fin 0)"
  have le: "length c \<le> kv" using assms(4,5) by simp
  have e: "snapkv_decode (Some c) kv = Inr ?e" using le by (rule snapkv_decode_Some)
  have e': "snapkv_wrong_decode (Some c) kv = Some ?e'" by (rule snapkv_wrong_decode_Some)
  have len: "length ?e = kv" "length ?e' = kv" using le by simp_all
  have at: "?e ! j = Fin 0" "?e' ! j = Fin 0" using assms(4,5) le by (simp_all add: nth_append)
  have a: "madd (qk sc 1 kv) [?e] ! 0 ! j = Fin (sc 0 j)"
    using assms(5) len(1) at(1) by (rule madd_single_row)
  have a': "madd (qk sc 1 kv) [?e'] ! 0 ! j = Fin (sc 0 j)"
    using assms(5) len(2) at(2) by (rule madd_single_row)
  have d: "\<exists>a fm sk h. dispatch L sa hist 1 kv am sc mt pooled sm = Inr (a, fm, sk, h)
                      \<and> a ! 0 ! j = Fin (sc 0 j)"
    using assms(1)
  proof
    assume "eval_llm_mode L = ''snapkv''"
    then have "dispatch L sa hist 1 kv am sc mt pooled sm
                 = Inr (madd (qk sc 1 kv) [?e], None, snapkv_cache L, hist)"
      using assms(2,3) e by (simp add: dispatch_def Let_def)
    with a show ?thesis by simp
  next
    assume "eval_llm_mode L = ''snapkv_prefill_wrong''"
    then have "dispatch L sa hist 1 kv am sc mt pooled sm
                 = Inr (madd (qk sc 1 kv) [?e'], None, snapkv_cache L, hist)"
      using assms(2,3) e' by (simp add: dispatch_def Let_def)
    with a' show ?thesis by simp
  qed
  show ?thesis using e e' len at d by (simp only: simp_thms) blast
qed

theorem snapkv_decode_appended_open_witness:
  "snapkv_decode (Some [Fin 0, NegInf]) 3 = Inr [Fin 0, NegInf, Fin 0]
   \<and> (\<exists>ext. snapkv_wrong_decode (Some [Fin 0, NegInf]) 3 = Some ext \<and> length ext = 3
            \<and> ext ! 2 = Fin 0)"
proof -
  let ?L = "\<lparr>layer_idx = 1, eval_llm_mode = ''snapkv'', sparse_aggression = Some (Num (1 / 2)),
        min_sparse_index = 0, head_dim = 8, group_factor = 4,
        snapkv_cache = Some [Fin 0, NegInf]\<rparr>"
  have h1: "eval_llm_mode ?L = ''snapkv'' \<or> eval_llm_mode ?L = ''snapkv_prefill_wrong''" by simp
  have h2: "0 < layer_idx ?L" by simp
  have h3: "snapkv_cache ?L = Some [Fin 0, NegInf]" by simp
  have h4: "length [Fin 0, NegInf] \<le> (2::nat)" by simp
  have h5: "(2::nat) < 3" by simp
  have v: "snapkv_decode (Some [Fin 0, NegInf]) 3 = Inr [Fin 0, NegInf, Fin 0]" by code_simp
  show ?thesis using v snapkv_decode_appended_open [OF h1 h2 h3 h4 h5] by blast
qed

section \<open>The kept prefix in the H2O decode step\<close>

text \<open>
  Claim C2 at the H2O decode step. With half of the tokens kept and \<open>min_sparse_index = 2\<close>,
  a prefill of four tokens with the scores \<open>i \<times> j\<close> leaves the tokens 2 and 3 active; the
  decode step that follows, with the scores \<open>j\<close>, replaces token 2 by the new token 4, and
  the mask row it builds suppresses the keys 0 and 1, which are below \<open>min_sparse_index\<close>
  and precede the query.
\<close>

theorem h2o_decode_masks_prefix:
  "forward \<lparr>layer_idx = 1, eval_llm_mode = ''h2o_true'', sparse_aggression = Some (Num (1 / 2)),
        min_sparse_index = 2, head_dim = 8, group_factor = 4, snapkv_cache = None\<rparr>
        4 None (Some (BaselineDynamicCache 0 None)) True (\<lambda>i j. of_nat (i * j))
        (Inl RuntimeError) (\<lambda>i j. 0) None
     = Inr \<lparr>attn_weights = [[Fin 0, NegInf, NegInf, NegInf], [Fin 0, Fin 1, NegInf, NegInf],
                             [Fin 0, Fin 2, Fin 4, NegInf], [Fin 0, Fin 3, Fin 6, Fin 9]],
            final_mask = Some [[Fin 0, Fin 0, NegInf, NegInf], [Fin 0, Fin 0, NegInf, NegInf],
                               [Fin 0, Fin 0, Fin 0, NegInf], [Fin 0, Fin 0, Fin 0, Fin 0]],
            cache_out = Some (BaselineDynamicCache 4
                          (Some \<lparr>active_tokens = [2, 3], active_counts = 2\<rparr>)),
            snapkv_cache_out = None\<rparr>
   \<and> forward \<lparr>layer_idx = 1, eval_llm_mode = ''h2o_true'', sparse_aggression = Some (Num (1 / 2)),
        min_sparse_index = 2, head_dim = 8, group_factor = 4, snapkv_cache = None\<rparr>
        1 None (Some (BaselineDynamicCache 4 (Some \<lparr>active_tokens = [2, 3], active_counts = 2\<rparr>)))
        True (\<lambda>i j. of_nat j) (Inl RuntimeError) (\<lambda>i j. 0) None
     = Inr \<lparr>attn_weights = [[NegInf, NegInf, NegInf, Fin 3, Fin 4]],
            final_mask = Some [[NegInf, NegInf, NegInf, Fin 0, Fin 0]],
            cache_out = Some (BaselineDynamicCache 5
                          (Some \<lparr>active_tokens = [4, 3, 0], active_counts = 2\<rparr>)),
            snapkv_cache_out = None\<rparr>"
  by code_simp

section \<open>Steps of the eviction loop\<close>

lemma first_index_less: "v \<in> set xs \<Longrightarrow> first_index v xs < length xs"
  by (induction xs) auto

lemma nth_first_index: "v \<in> set xs \<Longrightarrow> xs ! first_index v xs = v"
  by (induction xs) auto

lemma torch_min_Inr:
  assumes "torch_min xs = Inr (m, p)"
  shows "xs \<noteq> [] \<and> m = Min (set xs) \<and> p < length xs \<and> xs ! p = m"
proof (cases xs)
  case Nil
  with assms show ?thesis by (simp add: torch_min_def)
next
  case (Cons x r)
  with assms have m: "m = fold min r x" and p: "p = first_index m xs"
    by (auto simp: torch_min_def Let_def)
  have mm: "m = Min (set xs)" using m Cons Min.set_eq_fold [of x r] by simp
  then have "m \<in> set xs" using Cons by (metis List.finite_set Min_in set_empty list.distinct(1))
  then have "first_index m xs < length xs" and "xs ! first_index m xs = m"
    by (rule first_index_less, rule nth_first_index)
  then show ?thesis using mm p Cons by blast
qed

lemma gather_Inr:
  "gather row idx = Inr vs \<Longrightarrow> vs = map (nth row) idx \<and> (\<forall>t\<in>set idx. t < length row)"
  by (auto simp: gather_def list_all_iff split: if_splits)

lemma nth_imp_row: "t < Suc i \<Longrightarrow> imp_row imp i ! t = imp i t"
  unfolding imp_row_def by (simp del: upt_Suc)

lemma length_imp_row: "length (imp_row imp i) = Suc i"
  by (simp add: imp_row_def)

text \<open>What a successful replacement does.\<close>

lemma replace_min_Inr:
  assumes "replace_min row new_imp b i st = Inr st'"
  shows "active_counts st' = active_counts st
       \<and> take b (active_tokens st) \<noteq> []
       \<and> (\<forall>t\<in>set (take b (active_tokens st)). t < length row)
       \<and> (\<exists>p<length (take b (active_tokens st)).
             row ! (take b (active_tokens st) ! p) = Min (nth row ` set (take b (active_tokens st)))
           \<and> active_tokens st' =
               (if Min (nth row ` set (take b (active_tokens st))) < new_imp
                then (active_tokens st)[p := i] else active_tokens st))"
proof -
  let ?act = "take b (active_tokens st)"
  from assms obtain vs where g: "gather row ?act = Inr vs"
    by (auto simp: replace_min_def Let_def split: sum.splits)
  then have vs: "vs = map (nth row) ?act" and rng: "\<forall>t\<in>set ?act. t < length row"
    using gather_Inr by blast+
  from assms g obtain m p where tm: "torch_min vs = Inr (m, p)"
    by (auto simp: replace_min_def Let_def split: sum.splits)
  from torch_min_Inr [OF tm] have ne: "vs \<noteq> []" and m: "m = Min (set vs)"
    and p: "p < length vs" and at: "vs ! p = m" by blast+
  have st': "st' = (if m < new_imp then st\<lparr>active_tokens := (active_tokens st)[p := i]\<rparr> else st)"
    using assms g tm by (auto simp: replace_min_def Let_def split: if_splits)
  have setvs: "set vs = nth row ` set ?act" using vs by simp
  have p': "p < length ?act" using p vs by simp
  have at': "row ! (?act ! p) = Min (nth row ` set ?act)"
    using at m p' unfolding setvs [symmetric] vs by simp
  have c: "active_counts st' = active_counts st" using st' by simp
  have t: "active_tokens st' = (if Min (nth row ` set ?act) < new_imp
                then (active_tokens st)[p := i] else active_tokens st)"
    using st' m setvs by simp
  from ne vs have ne': "?act \<noteq> []" by auto
  show ?thesis using c ne' rng p' at' t by blast
qed

lemma evict_step_add:
  assumes "evict_step b row new_imp i st = Inr st'" and "active_counts st < b"
  shows "active_counts st' = active_counts st + 1
       \<and> active_tokens st' = (active_tokens st)[active_counts st := i]
       \<and> active_counts st < length (active_tokens st)"
  using assms by (auto simp: evict_step_def split: if_splits)

lemma evict_step_replace:
  assumes "evict_step b row new_imp i st = Inr st'" and "\<not> active_counts st < b"
  shows "replace_min row new_imp b i st = Inr st'"
  using assms by (simp add: evict_step_def)

lemma evict_step_length:
  assumes "evict_step b row new_imp i st = Inr st'"
  shows "length (active_tokens st') = length (active_tokens st)"
proof (cases "active_counts st < b")
  case True
  with evict_step_add [OF assms] show ?thesis by simp
next
  case False
  from replace_min_Inr [OF evict_step_replace [OF assms False]] show ?thesis
    by (auto split: if_splits)
qed

lemma evict_step_count_mono:
  assumes "evict_step b row new_imp i st = Inr st'"
  shows "active_counts st \<le> active_counts st'"
proof (cases "active_counts st < b")
  case True
  with evict_step_add [OF assms] show ?thesis by simp
next
  case False
  from replace_min_Inr [OF evict_step_replace [OF assms False]] show ?thesis by simp
qed

lemma evict_step_count_le:
  assumes "evict_step b row new_imp i st = Inr st'" and "active_counts st \<le> max 1 b"
  shows "active_counts st' \<le> b"
proof (cases "active_counts st < b")
  case True
  with evict_step_add [OF assms(1)] show ?thesis by simp
next
  case False
  from replace_min_Inr [OF evict_step_replace [OF assms(1) False]]
  have c: "active_counts st' = active_counts st" and ne: "take b (active_tokens st) \<noteq> []"
    by blast+
  from ne have "0 < b" by (cases b) auto
  with assms(2) c show ?thesis by (simp add: max_def split: if_splits)
qed


section \<open>Runs of the eviction loop\<close>

lemma evict_loop_length:
  "evict_loop budget imp mb kv is st = Inr tr \<Longrightarrow> length tr = length is"
  by (induction "is" arbitrary: st tr) (auto split: sum.splits)

text \<open>Each entry of the result comes from one pass over the state left by the entry before.\<close>

lemma evict_loop_nth:
  assumes "evict_loop budget imp mb kv is st = Inr tr" and "k < length is"
  shows "evict_step (budget (is ! k)) (imp_row imp (is ! k)) (imp (is ! k) (is ! k)) (is ! k)
           ((st # map snd tr) ! k) = Inr (snd (tr ! k))
       \<and> mask_row mb kv (snd (tr ! k)) = Inr (fst (tr ! k))"
  using assms
proof (induction "is" arbitrary: st tr k)
  case Nil
  then show ?case by simp
next
  case (Cons i "is")
  from Cons.prems(1) obtain st' row tr' where
    s: "evict_step (budget i) (imp_row imp i) (imp i i) i st = Inr st'"
    and r: "mask_row mb kv st' = Inr row"
    and l: "evict_loop budget imp mb kv is st' = Inr tr'"
    and t: "tr = (row, st') # tr'"
    by (auto split: sum.splits)
  show ?case
  proof (cases k)
    case 0
    with s r t show ?thesis by simp
  next
    case (Suc k')
    with Cons.prems(2) have "k' < length is" by simp
    from Cons.IH [OF l this] show ?thesis using Suc t by simp
  qed
qed

lemma evict_loop_append:
  "evict_loop budget imp mb kv (xs @ ys) st =
     (case evict_loop budget imp mb kv xs st of
        Inl e \<Rightarrow> Inl e
      | Inr tr \<Rightarrow>
          (case evict_loop budget imp mb kv ys (last (st # map snd tr)) of
             Inl e \<Rightarrow> Inl e
           | Inr tr' \<Rightarrow> Inr (tr @ tr')))"
  by (induction xs arbitrary: st) (auto split: sum.splits)

text \<open>The count stays within the budget of the step just made.\<close>

lemma evict_loop_count_le:
  assumes "evict_loop (step_budget sa msi) imp mb kv [1..<q] st = Inr tr"
    and "active_counts st = 1" and "k < length tr"
  shows "active_counts (snd (tr ! k)) \<le> step_budget sa msi (k + 1)"
  using assms(3)
proof (induction k)
  case 0
  then have k: "0 < length [1..<q]" using evict_loop_length [OF assms(1)] by simp
  from evict_loop_nth [OF assms(1) k]
  have "evict_step (step_budget sa msi 1) (imp_row imp 1) (imp 1 1) 1 st = Inr (snd (tr ! 0))"
    using k by (simp add: nth_upt)
  from evict_step_count_le [OF this] assms(2) show ?case by simp
next
  case (Suc k)
  then have k: "Suc k < length [1..<q]" and k': "k < length tr"
    using evict_loop_length [OF assms(1)] by simp_all
  have nth: "[1..<q] ! Suc k = k + 2" using k by (simp add: nth_upt)
  from evict_loop_nth [OF assms(1) k]
  have s: "evict_step (step_budget sa msi (k + 2)) (imp_row imp (k + 2)) (imp (k + 2) (k + 2))
             (k + 2) (snd (tr ! k)) = Inr (snd (tr ! Suc k))"
    using k k' by simp
  have "active_counts (snd (tr ! k)) \<le> step_budget sa msi (k + 1)" using Suc.IH k' by simp
  also have "\<dots> \<le> step_budget sa msi (k + 2)" using step_budget_Suc [of sa msi "k + 1"] by simp
  finally have "active_counts (snd (tr ! k)) \<le> max 1 (step_budget sa msi (k + 2))" by simp
  from evict_step_count_le [OF s this] show ?case by simp
qed


section \<open>Counts and replacements\<close>

text \<open>
  Claim C3. In the loops of \<open>snapkv\<close> and \<open>h2o_true\<close> over at most \<open>2^26\<close> positions,
  with a kept fraction that is a float of at most 1, for a row and the step \<open>i = k + 1\<close>
  that takes the state \<open>st\<close> to \<open>st'\<close>: the count does not decrease and stays within the
  budget of the step; a count that had reached the budget of the step before is at the
  budget of this step; a row below its budget appends the new token; any other row keeps
  its count, and among the active tokens there is one of least importance that gives way
  to the new token when the new token's importance is strictly greater, while otherwise
  the new token is dropped and the active tokens stay as they are.
\<close>

theorem eviction_counts_and_replacement:
  assumes "budget = step_budget sa msi \<or> budget = kv_cache_budget sa msi"
    and "fl sa = sa" and "sa \<le> 1" and "q \<le> 2 ^ 26"
    and "evict_loop budget imp mb kv [1..<q] (init_state mb) = Inr tr"
    and "k < length tr"
  shows "(let i = k + 1; st = (init_state mb # map snd tr) ! k; st' = snd (tr ! k);
              act = take (budget i) (active_tokens st); least = Min (imp i ` set act)
          in active_counts st \<le> active_counts st' \<and> active_counts st' \<le> budget i
           \<and> (active_counts st = budget k \<longrightarrow> active_counts st' = budget i)
           \<and> (active_counts st < budget i \<longrightarrow>
                 active_counts st' = active_counts st + 1
               \<and> active_tokens st' = (active_tokens st)[active_counts st := i])
           \<and> (\<not> active_counts st < budget i \<longrightarrow>
                 active_counts st' = active_counts st
               \<and> (\<exists>p<length act. imp i (act ! p) = least
                      \<and> active_tokens st' =
                          (if least < imp i i then (active_tokens st)[p := i]
                           else active_tokens st))))"
proof -
  have b: "budget = step_budget sa msi" using assms(1) kv_cache_budget_eq by auto
  define i where "i = k + 1"
  define st where "st = (init_state mb # map snd tr) ! k"
  define st' where "st' = snd (tr ! k)"
  define act where "act = take (budget i) (active_tokens st)"
  define least where "least = Min (imp i ` set act)"
  have run: "evict_loop (step_budget sa msi) imp mb kv [1..<q] (init_state mb) = Inr tr"
    using assms(5) b by simp
  have k: "k < length [1..<q]" using assms(6) evict_loop_length [OF run] by simp
  then have nth: "[1..<q] ! k = i" by (simp add: i_def)
  from evict_loop_nth [OF run k]
  have step: "evict_step (budget i) (imp_row imp i) (imp i i) i st = Inr st'"
    unfolding nth b st_def st'_def by simp
  have mono: "active_counts st \<le> active_counts st'" using step by (rule evict_step_count_mono)
  have le: "active_counts st' \<le> budget i"
    using evict_loop_count_le [OF run _ assms(6)] by (simp add: init_state_def b st'_def i_def)
  have add: "active_counts st' = active_counts st + 1
               \<and> active_tokens st' = (active_tokens st)[active_counts st := i]"
    if "active_counts st < budget i"
    using evict_step_add [OF step that] by simp
  have rep: "active_counts st' = active_counts st
               \<and> (\<exists>p<length act. imp i (act ! p) = least
                      \<and> active_tokens st' =
                          (if least < imp i i then (active_tokens st)[p := i]
                           else active_tokens st))"
    if "\<not> active_counts st < budget i"
  proof -
    from replace_min_Inr [OF evict_step_replace [OF step that]]
    obtain p where c: "active_counts st' = active_counts st"
      and rng: "\<forall>t\<in>set act. t < length (imp_row imp i)"
      and p: "p < length act"
      and m: "imp_row imp i ! (act ! p) = Min (nth (imp_row imp i) ` set act)"
      and t: "active_tokens st' =
               (if Min (nth (imp_row imp i) ` set act) < imp i i
                then (active_tokens st)[p := i] else active_tokens st)"
      unfolding act_def by blast
    have eq: "imp_row imp i ! t = imp i t" if "t \<in> set act" for t
      using rng that by (simp add: nth_imp_row length_imp_row)
    then have img: "nth (imp_row imp i) ` set act = imp i ` set act" by (intro image_cong) simp_all
    have "act ! p \<in> set act" using p by simp
    then have "imp i (act ! p) = least" using m eq unfolding img least_def by simp
    moreover have "active_tokens st' =
               (if least < imp i i then (active_tokens st)[p := i] else active_tokens st)"
      using t unfolding img least_def .
    ultimately show ?thesis using c p by blast
  qed
  have stay: "active_counts st' = budget i" if eq: "active_counts st = budget k"
  proof (cases "active_counts st < budget i")
    case True
    have "k + 2 \<le> 2 ^ 26" using k assms(4) by simp
    then have "budget i \<le> Suc (budget k)"
      unfolding b i_def using step_budget_Suc_le [OF assms(2,3), of k msi] by simp
    with True eq add [OF True] show ?thesis by simp
  next
    case False
    have "budget k \<le> budget i" unfolding b i_def using step_budget_Suc [of sa msi k] by simp
    with False eq rep [OF False] show ?thesis by simp
  qed
  show ?thesis
    unfolding Let_def i_def [symmetric] st_def [symmetric] st'_def [symmetric]
      act_def [symmetric] least_def [symmetric]
    using mono le stay add rep by blast
qed


theorem eviction_counts_and_replacement_witness:
  "fl (1 / 2) = 1 / 2 \<and> (1 / 2 :: rat) \<le> 1 \<and> (4::nat) \<le> 2 ^ 26
   \<and> evict_loop (kv_cache_budget (1 / 2) 2) (\<lambda>i j. of_nat (i * j)) 2 4 [1..<4] (init_state 2)
       = Inr [([Fin 0, Fin 0, NegInf, NegInf], \<lparr>active_tokens = [0, 1], active_counts = 2\<rparr>),
              ([NegInf, Fin 0, Fin 0, NegInf], \<lparr>active_tokens = [2, 1], active_counts = 2\<rparr>),
              ([NegInf, NegInf, Fin 0, Fin 0], \<lparr>active_tokens = [2, 3], active_counts = 2\<rparr>)]
   \<and> active_counts \<lparr>active_tokens = [2, 3], active_counts = 2\<rparr> \<le> kv_cache_budget (1 / 2) 2 3"
proof -
  let ?tr = "[([Fin 0, Fin 0, NegInf, NegInf], \<lparr>active_tokens = [0, 1], active_counts = 2\<rparr>),
              ([NegInf, Fin 0, Fin 0, NegInf], \<lparr>active_tokens = [2, 1], active_counts = 2\<rparr>),
              ([NegInf, NegInf, Fin 0, Fin 0], \<lparr>active_tokens = [2, 3], active_counts = 2\<rparr>)]"
  have h0: "kv_cache_budget (1 / 2) 2 = step_budget (1 / 2) 2
              \<or> kv_cache_budget (1 / 2) 2 = kv_cache_budget (1 / 2) 2" by simp
  have hd: "fl (1 / 2) = 1 / 2" by code_simp
  have h1: "(1 / 2 :: rat) \<le> 1" by simp
  have hq: "(4::nat) \<le> 2 ^ 26" by simp
  have h2: "evict_loop (kv_cache_budget (1 / 2) 2) (\<lambda>i j. of_nat (i * j)) 2 4 [1..<4]
              (init_state 2) = Inr ?tr"
    by code_simp
  have h3: "2 < length ?tr" by simp
  from eviction_counts_and_replacement [OF h0 hd h1 hq h2 h3]
  have "active_counts (snd (?tr ! 2)) \<le> kv_cache_budget (1 / 2) 2 (2 + 1)"
    unfolding Let_def by blast
  then have "active_counts \<lparr>active_tokens = [2, 3], active_counts = 2\<rparr>
               \<le> kv_cache_budget (1 / 2) 2 3"
    by simp
  with hd h1 hq h2 show ?thesis by blast
qed

section \<open>Mask rows\<close>

lemma length_fold_unmask: "length (fold (\<lambda>t r. r[t := v]) ts r) = length r"
  by (induction ts arbitrary: r) simp_all

lemma nth_fold_unmask:
  "p < length r \<Longrightarrow> fold (\<lambda>t r. r[t := v]) ts r ! p = (if p \<in> set ts then v else r ! p)"
proof (induction ts arbitrary: r)
  case Nil
  then show ?case by simp
next
  case (Cons t ts)
  have "p < length (r[t := v])" using Cons.prems by simp
  from Cons.IH [OF this] show ?case using Cons.prems by (auto simp: nth_list_update)
qed

lemma length_zero_prefix: "length (zero_prefix msi row) = length row"
  by (simp add: zero_prefix_def)

lemma nth_zero_prefix:
  "p < length row \<Longrightarrow> zero_prefix msi row ! p = (if p < msi then Fin 0 else row ! p)"
  by (simp add: zero_prefix_def nth_enumerate_eq)

lemma unmask_Inr:
  "unmask ts row = Inr r \<Longrightarrow> r = fold (\<lambda>t r. r[t := Fin 0]) ts row \<and> (\<forall>t\<in>set ts. t < length row)"
  by (auto simp: unmask_def list_all_iff split: if_splits)

lemma mask_row_Inr:
  assumes "mask_row mb kv st = Inr row" and "active_counts st \<le> mb"
  shows "row = fold (\<lambda>t r. r[t := Fin 0]) (take (active_counts st) (active_tokens st))
                 (replicate kv NegInf)
       \<and> (\<forall>t\<in>set (take (active_counts st) (active_tokens st)). t < kv)
       \<and> active_counts st \<le> length (active_tokens st)"
proof -
  from assms(1) obtain ts where v: "valid_tokens mb st = Inr ts"
    and u: "unmask ts (replicate kv NegInf) = Inr row"
    by (auto simp: mask_row_def split: sum.splits)
  from v assms(2) have ts: "ts = take (active_counts st) (active_tokens st)"
    and le: "active_counts st \<le> length (active_tokens st)"
    by (auto simp: valid_tokens_def Let_def min_def split: if_splits)
  from unmask_Inr [OF u] show ?thesis using ts le by simp
qed

lemma mask_row_intro:
  assumes "active_counts st \<le> mb" and "active_counts st \<le> length (active_tokens st)"
    and "\<forall>t\<in>set (take (active_counts st) (active_tokens st)). t < kv"
  shows "mask_row mb kv st
           = Inr (fold (\<lambda>t r. r[t := Fin 0]) (take (active_counts st) (active_tokens st))
                    (replicate kv NegInf))"
  using assms by (simp add: mask_row_def valid_tokens_def unmask_def Let_def min_def list_all_iff)

section \<open>A wider slot array\<close>

text \<open>
  The slots behind the budget are never read or written: a run on a slot array with more
  slots at the end goes through the same states, with those slots untouched.
\<close>

lemma replace_min_pad:
  assumes "replace_min row new_imp b i st = Inr st'" and "b \<le> length (active_tokens st)"
  shows "replace_min row new_imp b i (st\<lparr>active_tokens := active_tokens st @ pad\<rparr>)
           = Inr (st'\<lparr>active_tokens := active_tokens st' @ pad\<rparr>)"
proof -
  let ?act = "take b (active_tokens st)"
  from assms(1) obtain vs where g: "gather row ?act = Inr vs"
    by (auto simp: replace_min_def Let_def split: sum.splits)
  from assms(1) g obtain m p where tm: "torch_min vs = Inr (m, p)"
    by (auto simp: replace_min_def Let_def split: sum.splits)
  have st': "st' = (if m < new_imp then st\<lparr>active_tokens := (active_tokens st)[p := i]\<rparr> else st)"
    using assms(1) g tm by (auto simp: replace_min_def Let_def split: if_splits)
  from torch_min_Inr [OF tm] gather_Inr [OF g] have "p < length ?act" by simp
  then have p: "p < length (active_tokens st)" by simp
  have tk: "take b (active_tokens st @ pad) = ?act" using assms(2) by simp
  show ?thesis
    using g tm p assms(2) unfolding st' by (simp add: replace_min_def Let_def list_update_append1)
qed

lemma evict_step_pad:
  assumes "evict_step b row new_imp i st = Inr st'" and "b \<le> length (active_tokens st)"
  shows "evict_step b row new_imp i (st\<lparr>active_tokens := active_tokens st @ pad\<rparr>)
           = Inr (st'\<lparr>active_tokens := active_tokens st' @ pad\<rparr>)"
proof (cases "active_counts st < b")
  case True
  from evict_step_add [OF assms(1) True]
  have "st' = st\<lparr>active_tokens := (active_tokens st)[active_counts st := i],
                   active_counts := active_counts st + 1\<rparr>"
    and "active_counts st < length (active_tokens st)"
    using assms(1) True by (auto simp: evict_step_def split: if_splits)
  then show ?thesis using True by (simp add: evict_step_def list_update_append1)
next
  case False
  from replace_min_pad [OF evict_step_replace [OF assms(1) False] assms(2)]
  show ?thesis using False by (simp add: evict_step_def)
qed

lemma mask_row_pad:
  assumes "mask_row mb kv st = Inr row" and "active_counts st \<le> mb" and "mb \<le> mb'"
    and "kv \<le> kv'"
  shows "\<exists>row'. mask_row mb' kv' (st\<lparr>active_tokens := active_tokens st @ pad\<rparr>) = Inr row'"
proof -
  from mask_row_Inr [OF assms(1,2)]
  have rng: "\<forall>t\<in>set (take (active_counts st) (active_tokens st)). t < kv"
    and le: "active_counts st \<le> length (active_tokens st)" by blast+
  let ?st = "st\<lparr>active_tokens := active_tokens st @ pad\<rparr>"
  have "mask_row mb' kv' ?st
           = Inr (fold (\<lambda>t r. r[t := Fin 0]) (take (active_counts ?st) (active_tokens ?st))
                    (replicate kv' NegInf))"
    using assms(2,3,4) rng le by (intro mask_row_intro) auto
  then show ?thesis by blast
qed

lemma evict_loop_tokens_length:
  "evict_loop budget imp mb kv is st = Inr tr \<Longrightarrow> s \<in> snd ` set tr
     \<Longrightarrow> length (active_tokens s) = length (active_tokens st)"
proof (induction "is" arbitrary: st tr)
  case Nil
  then show ?case by simp
next
  case (Cons i "is")
  from Cons.prems(1) obtain st' row tr' where
    s: "evict_step (budget i) (imp_row imp i) (imp i i) i st = Inr st'"
    and l: "evict_loop budget imp mb kv is st' = Inr tr'"
    and t: "tr = (row, st') # tr'"
    by (auto split: sum.splits)
  from Cons.prems(2) t have "s = st' \<or> s \<in> snd ` set tr'" by auto
  then show ?case using Cons.IH [OF l] evict_step_length [OF s] by auto
qed

lemma evict_loop_pad:
  assumes "evict_loop (step_budget sa msi) imp mb kv is st = Inr tr"
    and "sorted is" and "\<forall>i\<in>set is. step_budget sa msi i \<le> mb"
    and "length (active_tokens st) = mb"
    and "is \<noteq> [] \<longrightarrow> active_counts st \<le> max 1 (step_budget sa msi (hd is))"
    and "mb \<le> mb'" and "kv \<le> kv'"
  shows "\<exists>tr'. evict_loop (step_budget sa msi) imp mb' kv' is
                 (st\<lparr>active_tokens := active_tokens st @ pad\<rparr>) = Inr tr'
              \<and> map snd tr' = map (\<lambda>s. s\<lparr>active_tokens := active_tokens s @ pad\<rparr>) (map snd tr)"
  using assms(1-5)
proof (induction "is" arbitrary: st tr)
  case Nil
  then show ?case by simp
next
  case (Cons i "is")
  let ?b = "step_budget sa msi"
  from Cons.prems(1) obtain st' row tr1 where
    s: "evict_step (?b i) (imp_row imp i) (imp i i) i st = Inr st'"
    and r: "mask_row mb kv st' = Inr row"
    and l: "evict_loop ?b imp mb kv is st' = Inr tr1"
    and t: "tr = (row, st') # tr1"
    by (auto split: sum.splits)
  have bi: "?b i \<le> mb" using Cons.prems(3) by simp
  have c: "active_counts st' \<le> ?b i"
    using evict_step_count_le [OF s] Cons.prems(5) by simp
  have len: "length (active_tokens st') = mb"
    using evict_step_length [OF s] Cons.prems(4) by simp
  have s': "evict_step (?b i) (imp_row imp i) (imp i i) i (st\<lparr>active_tokens := active_tokens st @ pad\<rparr>)
              = Inr (st'\<lparr>active_tokens := active_tokens st' @ pad\<rparr>)"
    using s bi Cons.prems(4) by (intro evict_step_pad) simp_all
  from mask_row_pad [OF r _ assms(6,7)] c bi
  obtain row' where r': "mask_row mb' kv' (st'\<lparr>active_tokens := active_tokens st' @ pad\<rparr>) = Inr row'"
    by fastforce
  have nxt: "is \<noteq> [] \<longrightarrow> active_counts st' \<le> max 1 (?b (hd is))"
  proof
    assume ne: "is \<noteq> []"
    then have "i \<le> hd is" using Cons.prems(2) by (cases "is") auto
    then have "?b i \<le> ?b (hd is)" by (rule step_budget_mono)
    with c show "active_counts st' \<le> max 1 (?b (hd is))" by simp
  qed
  from Cons.IH [OF l _ _ len nxt] Cons.prems(2,3)
  obtain tr' where l': "evict_loop ?b imp mb' kv' is (st'\<lparr>active_tokens := active_tokens st' @ pad\<rparr>) = Inr tr'"
    and m: "map snd tr' = map (\<lambda>s. s\<lparr>active_tokens := active_tokens s @ pad\<rparr>) (map snd tr1)"
    by auto
  show ?case using s' r' l' m t by simp
qed


section \<open>SnapKV: prefill and decode against a longer prefill\<close>

lemma take_Suc_update:
  "c < length xs \<Longrightarrow> take (Suc c) (xs[c := v]) = take c xs @ [v]"
  by (simp add: take_Suc_conv_app_nth)

lemma unmask_row_extend:
  assumes "\<forall>t\<in>set ts. t < N"
  shows "zero_prefix msi (fold (\<lambda>t r. r[t := Fin 0]) ts (replicate N NegInf)) @ [Fin 0]
       = zero_prefix msi (fold (\<lambda>t r. r[t := Fin 0]) (ts @ [N]) (replicate (Suc N) NegInf))"
    (is "?l @ [Fin 0] = ?r")
proof (rule nth_equalityI)
  show "length (?l @ [Fin 0]) = length ?r"
    by (simp add: length_zero_prefix length_fold_unmask del: replicate.simps)
next
  fix p
  assume "p < length (?l @ [Fin 0])"
  then have p: "p < Suc N" by (simp add: length_zero_prefix length_fold_unmask)
  show "(?l @ [Fin 0]) ! p = ?r ! p"
  proof (cases "p < N")
    case True
    then have "(?l @ [Fin 0]) ! p = ?l ! p"
      by (simp add: nth_append length_zero_prefix length_fold_unmask)
    also have "\<dots> = (if p < msi then Fin 0 else if p \<in> set ts then Fin 0 else NegInf)"
      using True by (simp add: nth_zero_prefix length_fold_unmask nth_fold_unmask)
    also have "\<dots> = ?r ! p"
      using True p
      by (simp add: nth_zero_prefix length_fold_unmask nth_fold_unmask del: replicate.simps)
    finally show ?thesis .
  next
    case False
    with p have pN: "p = N" by simp
    have "(?l @ [Fin 0]) ! p = Fin 0"
      using pN by (simp add: nth_append length_zero_prefix length_fold_unmask)
    moreover have "?r ! p = Fin 0"
      using pN
      by (simp add: nth_zero_prefix length_fold_unmask nth_fold_unmask del: replicate.simps)
    ultimately show ?thesis by simp
  qed
qed

text \<open>
  Claim C1, as the code has it, for \<open>snapkv\<close>. When the budget grows at position \<open>N\<close>,
  so that the token at \<open>N\<close> is taken in without an eviction, a prefill of \<open>N \<ge> 2\<close> tokens
  followed by one decode step gives the mask row that a prefill of \<open>N + 1\<close> tokens gives
  for its last position, with the same importances.
\<close>

theorem snapkv_prefill_then_decode:
  assumes "2 \<le> N"
    and "snapkv_prefill sa msi imp N N = Inr rows"
    and "step_budget sa msi (N - 1) < step_budget sa msi N"
  shows "\<exists>rows'. snapkv_prefill sa msi imp (Suc N) (Suc N) = Inr rows'
                \<and> snapkv_decode (Some (last rows)) (Suc N) = Inr (last rows')"
proof -
  let ?b = "step_budget sa msi"
  let ?zp = "zero_prefix msi"
  define mb where "mb = ?b (N - 1)"
  define mb' where "mb' = ?b N"
  define pad where "pad = replicate (mb' - mb) (0::nat)"
  let ?pad = "\<lambda>s. s\<lparr>active_tokens := active_tokens s @ pad\<rparr>"
  have "N - 1 + 1 = N" using assms(1) by simp
  then have mb: "nat (max (py_int (fmul (of_nat N) sa)) (int msi)) = mb"
    by (simp add: mb_def step_budget_def)
  have "N + 1 = Suc N" by simp
  then have mb': "nat (max (py_int (fmul (of_nat (Suc N)) sa)) (int msi)) = mb'"
    by (simp only: mb'_def step_budget_def)
  have lt: "mb < mb'" using assms(3) by (simp add: mb_def mb'_def)
  from assms(2) obtain tr where run: "evict_loop ?b imp mb N [1..<N] (init_state mb) = Inr tr"
    and rows: "rows = map ?zp (init_row N # map fst tr)"
    unfolding snapkv_prefill_def Let_def mb by (auto split: sum.splits)
  have len: "length tr = N - 1" using evict_loop_length [OF run] by simp
  then have ne: "tr \<noteq> []" using assms(1) by auto
  define stN where "stN = snd (last tr)"
  define rowN where "rowN = fst (last tr)"
  define c where "c = active_counts stN"
  define ts where "ts = take c (active_tokens stN)"
  have "length tr - 1 = N - 2" using len by simp
  then have lastN: "last tr = tr ! (N - 2)" using last_conv_nth [OF ne] by simp
  have k: "N - 2 < length [1..<N]" using assms(1) by simp
  have k': "N - 2 < length tr" using assms(1) len by simp
  from evict_loop_nth [OF run k] have rowN: "mask_row mb N stN = Inr rowN"
    unfolding stN_def rowN_def lastN by simp
  have "N - 2 + 1 = N - 1" using assms(1) by simp
  then have cN: "c \<le> mb"
    using evict_loop_count_le [OF run _ k']
    unfolding c_def stN_def lastN mb_def by (simp add: init_state_def)
  have "stN \<in> snd ` set tr" unfolding stN_def using ne by simp
  from evict_loop_tokens_length [OF run this]
  have lenN: "length (active_tokens stN) = mb" by (simp add: init_state_def)
  from mask_row_Inr [OF rowN] cN
  have rowN_eq: "rowN = fold (\<lambda>t r. r[t := Fin 0]) ts (replicate N NegInf)"
    and rng: "\<forall>t\<in>set ts. t < N"
    unfolding c_def ts_def by simp_all
  have init': "init_state mb' = ?pad (init_state mb)"
    using lt by (simp add: init_state_def pad_def replicate_add [symmetric])
  have bound: "\<forall>i\<in>set [1..<N]. ?b i \<le> mb"
    unfolding mb_def by (auto intro!: step_budget_mono)
  from evict_loop_pad [OF run sorted_upt bound, of mb' "Suc N" pad] lt
  obtain tr' where run': "evict_loop ?b imp mb' (Suc N) [1..<N] (init_state mb') = Inr tr'"
    and sts: "map snd tr' = map ?pad (map snd tr)"
    unfolding init' by (auto simp: init_state_def)
  have ne': "tr' \<noteq> []" using sts ne by auto
  have last': "last (init_state mb' # map snd tr') = ?pad stN"
    using ne ne' sts by (simp add: last_map stN_def)
  define st2 where "st2 = \<lparr>active_tokens = (active_tokens stN @ pad)[c := N], active_counts = c + 1\<rparr>"
  have clt: "c < length (active_tokens stN @ pad)" using cN lt lenN by (simp add: pad_def)
  have step: "evict_step (?b N) (imp_row imp N) (imp N N) N (?pad stN) = Inr st2"
    using cN lt clt by (simp add: evict_step_def st2_def c_def mb'_def)
  have ts2: "take (active_counts st2) (active_tokens st2) = ts @ [N]"
    using clt cN lenN by (simp add: st2_def take_Suc_update ts_def)
  have "mask_row mb' (Suc N) st2
          = Inr (fold (\<lambda>t r. r[t := Fin 0]) (take (active_counts st2) (active_tokens st2))
                   (replicate (Suc N) NegInf))"
  proof (rule mask_row_intro)
    show "active_counts st2 \<le> mb'" using cN lt by (simp add: st2_def)
    show "active_counts st2 \<le> length (active_tokens st2)" using clt by (simp add: st2_def)
    show "\<forall>t\<in>set (take (active_counts st2) (active_tokens st2)). t < Suc N"
      unfolding ts2 using rng by auto
  qed
  then have row2: "mask_row mb' (Suc N) st2
          = Inr (fold (\<lambda>t r. r[t := Fin 0]) (ts @ [N]) (replicate (Suc N) NegInf))"
    unfolding ts2 .
  let ?row2 = "fold (\<lambda>t r. r[t := Fin 0]) (ts @ [N]) (replicate (Suc N) NegInf)"
  have upt: "[1..<Suc N] = [1..<N] @ [N]" using assms(1) by simp
  have one: "evict_loop ?b imp mb' (Suc N) [N] (?pad stN) = Inr [(?row2, st2)]"
    by (simp only: evict_loop.simps step row2 sum.case)
  have run2: "evict_loop ?b imp mb' (Suc N) [1..<Suc N] (init_state mb') = Inr (tr' @ [(?row2, st2)])"
    by (simp only: upt evict_loop_append run' sum.case last' one)
  let ?rows' = "map ?zp (init_row (Suc N) # map fst (tr' @ [(?row2, st2)]))"
  have pre': "snapkv_prefill sa msi imp (Suc N) (Suc N) = Inr ?rows'"
    unfolding snapkv_prefill_def Let_def mb' run2 by simp
  have last_rows': "last ?rows' = ?zp ?row2" by simp
  have last_rows: "last rows = ?zp rowN"
    unfolding rows rowN_def using ne by (simp add: last_map)
  have lenr: "length (?zp rowN) = N"
    unfolding rowN_eq by (simp add: length_zero_prefix length_fold_unmask)
  have "snapkv_decode (Some (?zp rowN)) (Suc N) = Inr (?zp rowN @ replicate (Suc N - N) (Fin 0))"
    using snapkv_decode_Some [of "?zp rowN" "Suc N"] lenr by simp
  also have "?zp rowN @ replicate (Suc N - N) (Fin 0) = ?zp ?row2"
    unfolding rowN_eq using unmask_row_extend [OF rng] by simp
  finally have "snapkv_decode (Some (last rows)) (Suc N) = Inr (last ?rows')"
    unfolding last_rows last_rows' .
  with pre' show ?thesis by blast
qed

theorem snapkv_prefill_then_decode_witness:
  "(2::nat) \<le> 3
   \<and> snapkv_prefill (1 / 2) 0 (\<lambda>i j. if i = 1 then 3 / 2 else 11 / 6) 3 3
       = Inr [[Fin 0, NegInf, NegInf], [Fin 0, NegInf, NegInf], [Fin 0, NegInf, NegInf]]
   \<and> step_budget (1 / 2) 0 (3 - 1) < step_budget (1 / 2) 0 3
   \<and> (\<exists>rows'. snapkv_prefill (1 / 2) 0 (\<lambda>i j. if i = 1 then 3 / 2 else 11 / 6) (Suc 3) (Suc 3)
                  = Inr rows'
              \<and> snapkv_decode
                   (Some (last [[Fin 0, NegInf, NegInf], [Fin 0, NegInf, NegInf],
                                [Fin 0, NegInf, NegInf]])) (Suc 3)
                  = Inr (last rows'))"
proof -
  have h1: "(2::nat) \<le> 3" by simp
  have h2: "snapkv_prefill (1 / 2) 0 (\<lambda>i j. if i = 1 then 3 / 2 else 11 / 6) 3 3
       = Inr [[Fin 0, NegInf, NegInf], [Fin 0, NegInf, NegInf], [Fin 0, NegInf, NegInf]]"
    by code_simp
  have h3: "step_budget (1 / 2) 0 (3 - 1) < step_budget (1 / 2) 0 3" by code_simp
  show ?thesis using h1 h2 h3 snapkv_prefill_then_decode [OF h1 h2 h3] by blast
qed

text \<open>
  Claim C1 as it is worded fails for \<open>snapkv\<close>. With half of the tokens kept, no kept
  prefix and the pooled importances of uniform attention (3/2 at step 1, 11/6 at step 2),
  a prefill of two tokens keeps key 0 and the decode step opens the new key 2 on top of it;
  a prefill of three tokens has a budget of one key at its last position and keeps key 0
  only.
\<close>

theorem snapkv_prefill_decode_counterexample:
  "snapkv_prefill (1 / 2) 0 (\<lambda>i j. if i = 1 then 3 / 2 else 11 / 6) 2 2
       = Inr [[Fin 0, NegInf], [Fin 0, NegInf]]
   \<and> snapkv_decode (Some (last [[Fin 0, NegInf], [Fin 0, NegInf]])) 3
       = Inr [Fin 0, NegInf, Fin 0]
   \<and> snapkv_prefill (1 / 2) 0 (\<lambda>i j. if i = 1 then 3 / 2 else 11 / 6) 3 3
       = Inr [[Fin 0, NegInf, NegInf], [Fin 0, NegInf, NegInf], [Fin 0, NegInf, NegInf]]
   \<and> [Fin 0, NegInf, Fin 0]
       \<noteq> last [[Fin 0, NegInf, NegInf], [Fin 0, NegInf, NegInf], [Fin 0, NegInf, NegInf]]"
  by code_simp

text \<open>
  The decode step of \<open>h2o_true\<close> on the state of a three-token prefill (scores \<open>i \<times> j\<close>,
  half of the tokens kept, a kept prefix of one): the row is below its budget, the new
  token 3 is written over the active token 2 at slot \<open>count - 1\<close>, and key 2 is masked;
  the prefill of four tokens keeps the keys 2 and 3 at its last position.
\<close>

lemma h2o_decode_overwrites_last_slot:
  "h2o_prefill (1 / 2) 1 (\<lambda>i j. of_nat (i * j)) 3 3
       = Inr ([[Fin 0, NegInf, NegInf], [Fin 0, Fin 0, NegInf], [Fin 0, NegInf, Fin 0]],
              \<lparr>active_tokens = [2], active_counts = 1\<rparr>)
   \<and> h2o_decode (1 / 2) 1 (\<lambda>j. of_nat (3 * j)) 4 \<lparr>active_tokens = [2], active_counts = 1\<rparr>
       = Inr ([Fin 0, NegInf, NegInf, Fin 0], \<lparr>active_tokens = [3, 0], active_counts = 2\<rparr>)
   \<and> h2o_prefill (1 / 2) 1 (\<lambda>i j. of_nat (i * j)) 4 4
       = Inr ([[Fin 0, NegInf, NegInf, NegInf], [Fin 0, Fin 0, NegInf, NegInf],
               [Fin 0, NegInf, Fin 0, NegInf], [Fin 0, NegInf, Fin 0, Fin 0]],
              \<lparr>active_tokens = [2, 3], active_counts = 2\<rparr>)"
  by code_simp

section \<open>When the loop returns\<close>

lemma torch_min_Cons: "\<exists>m p. torch_min (x # xs) = Inr (m, p)"
  by (simp add: torch_min_def Let_def)

lemma replace_min_total:
  assumes "0 < b" and "active_tokens st \<noteq> []" and "\<forall>t\<in>set (active_tokens st). t < length row"
  shows "\<exists>st'. replace_min row new_imp b i st = Inr st'"
proof -
  let ?act = "take b (active_tokens st)"
  have "\<forall>t\<in>set ?act. t < length row" using assms(3) by (auto dest: in_set_takeD)
  then have g: "gather row ?act = Inr (map (nth row) ?act)"
    by (simp add: gather_def list_all_iff)
  have "?act \<noteq> []" using assms(1,2) by (cases b; cases "active_tokens st") simp_all
  then obtain x xs where "map (nth row) ?act = x # xs" by (cases ?act) auto
  with torch_min_Cons [of x xs] obtain m p where "torch_min (map (nth row) ?act) = Inr (m, p)"
    by auto
  with g show ?thesis by (simp add: replace_min_def Let_def)
qed

lemma evict_step_total:
  assumes "0 < b" and "b \<le> length (active_tokens st)"
    and "\<forall>t\<in>set (active_tokens st). t < length row"
  shows "\<exists>st'. evict_step b row new_imp i st = Inr st'"
proof (cases "active_counts st < b")
  case True
  with assms(2) show ?thesis by (simp add: evict_step_def)
next
  case False
  have "active_tokens st \<noteq> []" using assms(1,2) by auto
  from replace_min_total [OF assms(1) this assms(3)] False show ?thesis
    by (simp add: evict_step_def)
qed

lemma evict_step_tokens:
  assumes "evict_step b row new_imp i st = Inr st'" and "t \<in> set (active_tokens st')"
  shows "t = i \<or> t \<in> set (active_tokens st)"
proof (cases "active_counts st < b")
  case True
  from evict_step_add [OF assms(1) True] assms(2) show ?thesis
    by (auto dest: set_update_subset_insert [THEN subsetD])
next
  case False
  from replace_min_Inr [OF evict_step_replace [OF assms(1) False]] assms(2) show ?thesis
    by (auto split: if_splits dest: set_update_subset_insert [THEN subsetD])
qed

lemma evict_loop_total:
  assumes "sorted_wrt (<) is"
    and "\<forall>i\<in>set is. 0 < step_budget sa msi i \<and> step_budget sa msi i \<le> mb \<and> i < kv"
    and "length (active_tokens st) = mb"
    and "\<forall>t\<in>set (active_tokens st). \<forall>i\<in>set is. t < i"
    and "is \<noteq> [] \<longrightarrow> active_counts st \<le> max 1 (step_budget sa msi (hd is))"
  shows "\<exists>tr. evict_loop (step_budget sa msi) imp mb kv is st = Inr tr"
  using assms
proof (induction "is" arbitrary: st)
  case Nil
  then show ?case by simp
next
  case (Cons i "is")
  let ?b = "step_budget sa msi"
  have bi: "0 < ?b i" "?b i \<le> mb" "i < kv" using Cons.prems(2) by simp_all
  have rng: "\<forall>t\<in>set (active_tokens st). t < length (imp_row imp i)"
    using Cons.prems(4) by (auto simp: length_imp_row)
  from evict_step_total [OF bi(1) _ rng] bi(2) Cons.prems(3)
  obtain st' where s: "evict_step (?b i) (imp_row imp i) (imp i i) i st = Inr st'" by auto
  have c: "active_counts st' \<le> ?b i" using evict_step_count_le [OF s] Cons.prems(5) by simp
  have len: "length (active_tokens st') = mb" using evict_step_length [OF s] Cons.prems(3) by simp
  have tok: "t \<le> i" if "t \<in> set (active_tokens st')" for t
    using evict_step_tokens [OF s that] Cons.prems(4) by auto
  have "\<forall>t\<in>set (take (active_counts st') (active_tokens st')). t < kv"
    using tok bi(3) by (auto dest!: in_set_takeD intro: le_less_trans)
  from mask_row_intro [OF _ _ this, of mb] c bi(2) len
  obtain row where r: "mask_row mb kv st' = Inr row" by auto
  have nxt: "is \<noteq> [] \<longrightarrow> active_counts st' \<le> max 1 (?b (hd is))"
  proof
    assume "is \<noteq> []"
    then have "i \<le> hd is" using Cons.prems(1) by (cases "is") auto
    then have "?b i \<le> ?b (hd is)" by (rule step_budget_mono)
    with c show "active_counts st' \<le> max 1 (?b (hd is))" by simp
  qed
  have later: "\<forall>t\<in>set (active_tokens st'). \<forall>j\<in>set is. t < j"
    using tok Cons.prems(1) by fastforce
  from Cons.IH [OF _ _ len later nxt] Cons.prems(1,2)
  obtain tr where "evict_loop ?b imp mb kv is st' = Inr tr" by auto
  with s r show ?case by simp
qed

text \<open>
  With a kept prefix of at least one token, or at least half of the tokens kept, the
  prefill of both policies returns.
\<close>

lemma step_budget_pos:
  assumes "1 \<le> msi \<or> 1 / 2 \<le> sa" and "1 \<le> i"
  shows "0 < step_budget sa msi i"
proof -
  have "0 < step_budget sa msi 1"
    using assms(1)
  proof
    assume "1 \<le> msi"
    then show ?thesis using step_budget_msi [of msi sa 1] by simp
  next
    assume h: "1 / 2 \<le> sa"
    then have "of_nat 1 \<le> of_nat (1 + 1) * sa" by simp
    then have "fl (of_nat 1) \<le> fl (of_nat (1 + 1) * sa)" by (rule fl_mono)
    then have "1 \<le> fmul (of_nat (1 + 1)) sa" using fl_of_nat [of 1] by (simp add: fmul_def)
    then have "1 \<le> \<lfloor>fmul (of_nat (1 + 1)) sa\<rfloor>" by (simp add: le_floor_iff)
    moreover have "0 \<le> fmul (of_nat (1 + 1)) sa" using h by (intro fmul_nonneg) simp
    ultimately have "1 \<le> py_int (fmul (of_nat (1 + 1)) sa)" by (simp only: py_int_nonneg)
    then show ?thesis by (simp add: step_budget_def)
  qed
  also have "step_budget sa msi 1 \<le> step_budget sa msi i" using assms(2) by (rule step_budget_mono)
  finally show ?thesis .
qed

lemma prefill_loop_total:
  assumes "1 \<le> msi \<or> 1 / 2 \<le> sa" and "q \<le> kv" and "q \<le> n" and "1 \<le> n"
  shows "\<exists>tr. evict_loop (step_budget sa msi) imp (step_budget sa msi (n - 1)) kv [1..<q]
                (init_state (step_budget sa msi (n - 1))) = Inr tr"
proof (rule evict_loop_total)
  show "sorted_wrt (<) [1..<q]" by simp
  show "\<forall>i\<in>set [1..<q]. 0 < step_budget sa msi i
          \<and> step_budget sa msi i \<le> step_budget sa msi (n - 1) \<and> i < kv"
    using assms by (auto intro!: step_budget_pos step_budget_mono)
  show "length (active_tokens (init_state (step_budget sa msi (n - 1)))) = step_budget sa msi (n - 1)"
    by (simp add: init_state_def)
  show "\<forall>t\<in>set (active_tokens (init_state (step_budget sa msi (n - 1)))). \<forall>i\<in>set [1..<q]. t < i"
    by (auto simp: init_state_def)
  show "[1..<q] \<noteq> [] \<longrightarrow> active_counts (init_state (step_budget sa msi (n - 1)))
          \<le> max 1 (step_budget sa msi (hd [1..<q]))"
    by (simp add: init_state_def)
qed

lemma snapkv_prefill_total:
  assumes "1 \<le> msi \<or> 1 / 2 \<le> sa" and "1 \<le> q" and "q \<le> kv"
  shows "\<exists>rows. snapkv_prefill sa msi imp q kv = Inr rows"
proof -
  have "q - 1 + 1 = q" using assms(2) by simp
  then have mb: "nat (max (py_int (fmul (of_nat q) sa)) (int msi)) = step_budget sa msi (q - 1)"
    by (simp add: step_budget_def)
  from prefill_loop_total [OF assms(1,3) order_refl assms(2)]
  obtain tr where "evict_loop (step_budget sa msi) imp (step_budget sa msi (q - 1)) kv [1..<q]
                (init_state (step_budget sa msi (q - 1))) = Inr tr" by blast
  then show ?thesis unfolding snapkv_prefill_def Let_def mb by simp
qed

text \<open>
  The H2O prefill needs a slot array with a slot: a single token, half of the tokens kept
  and no kept prefix give \<open>max_budget = 0\<close>, and line 599 raises.
\<close>

lemma h2o_prefill_no_slot: "h2o_prefill (1 / 2) 0 sc 1 1 = Inl IndexError"
proof -
  have "nat (max (py_int (fmul (of_nat 1) (1 / 2))) (int 0)) = 0" by code_simp
  then show ?thesis unfolding h2o_prefill_def Let_def by simp
qed

lemma h2o_prefill_total:
  assumes "1 \<le> msi \<or> 1 / 2 \<le> sa \<and> 2 \<le> kv" and "1 \<le> q" and "q \<le> kv"
  shows "\<exists>res. h2o_prefill sa msi sc q kv = Inr res"
proof -
  have kv: "1 \<le> kv" using assms(2,3) by simp
  have pre: "1 \<le> msi \<or> 1 / 2 \<le> sa" using assms(1) by blast
  have "kv - 1 + 1 = kv" using kv by simp
  then have mb: "nat (max (py_int (fmul (of_nat kv) sa)) (int msi)) = step_budget sa msi (kv - 1)"
    by (simp add: step_budget_def)
  have b: "kv_cache_budget sa msi = step_budget sa msi" by (rule ext) (rule kv_cache_budget_eq)
  have pos: "step_budget sa msi (kv - 1) \<noteq> 0"
    using assms(1)
  proof
    assume "1 \<le> msi"
    then show ?thesis using step_budget_msi [of msi sa "kv - 1"] by simp
  next
    assume h: "1 / 2 \<le> sa \<and> 2 \<le> kv"
    then have "1 \<le> kv - 1" by linarith
    with pre have "0 < step_budget sa msi (kv - 1)" by (rule step_budget_pos)
    then show ?thesis by simp
  qed
  from prefill_loop_total [OF pre assms(3,3) kv]
  obtain tr where "evict_loop (step_budget sa msi) sc (step_budget sa msi (kv - 1)) kv [1..<q]
                (init_state (step_budget sa msi (kv - 1))) = Inr tr" by blast
  then show ?thesis unfolding h2o_prefill_def Let_def mb b using pos by simp
qed
end
